theory Spec2Isabelle
  imports Main "HOL-Library.Sublist" "HOL-Library.Multiset" "HOL-Library.Char_ord"
    "HOL-Library.List_Lexorder"
begin

section \<open>Values read from the extractor's JSON\<close>

text \<open>
  Both graders read class descriptions with \<^verbatim>\<open>json.load\<close>, so the values the differ
  sees are Python's \<^verbatim>\<open>None\<close>, \<^verbatim>\<open>bool\<close>, \<^verbatim>\<open>int\<close>, \<^verbatim>\<open>str\<close>, \<^verbatim>\<open>list\<close> and \<^verbatim>\<open>dict\<close>
  (with string keys, in insertion order). Floating-point numbers are left out of the
  model. A string is a list of characters; \<^verbatim>\<open>repr\<close> and the ordering of strings are
  modelled for ASCII text.
\<close>

datatype json =
    JNull
  | JBool bool
  | JInt int
  | JStr string
  | JList "json list"
  | JDict "(string \<times> json) list"

datatype py_type = TNone | TBool | TInt | TStr | TList | TDict

datatype py_error = TypeError | AttributeError | KeyError

type_synonym 'a result = "py_error + 'a"

fun type_of :: "json \<Rightarrow> py_type" where
  "type_of JNull = TNone"
| "type_of (JBool b) = TBool"
| "type_of (JInt i) = TInt"
| "type_of (JStr s) = TStr"
| "type_of (JList xs) = TList"
| "type_of (JDict kvs) = TDict"

text \<open>\<^verbatim>\<open>type(v).__name__\<close>\<close>

fun type_name :: "py_type \<Rightarrow> string" where
  "type_name TNone = ''NoneType''"
| "type_name TBool = ''bool''"
| "type_name TInt = ''int''"
| "type_name TStr = ''str''"
| "type_name TList = ''list''"
| "type_name TDict = ''dict''"

definition is_dict :: "json \<Rightarrow> bool" where
  "is_dict v = (type_of v = TDict)"

definition is_list :: "json \<Rightarrow> bool" where
  "is_list v = (type_of v = TList)"

definition is_str :: "json \<Rightarrow> bool" where
  "is_str v = (type_of v = TStr)"

fun dict_items :: "json \<Rightarrow> (string \<times> json) list" where
  "dict_items (JDict kvs) = kvs"
| "dict_items v = []"

fun list_items :: "json \<Rightarrow> json list" where
  "list_items (JList xs) = xs"
| "list_items v = []"

fun str_val :: "json \<Rightarrow> string" where
  "str_val (JStr s) = s"
| "str_val v = []"

text \<open>A dict produced by \<^verbatim>\<open>json.load\<close> has no key twice, at any depth.\<close>

fun wf_json :: "json \<Rightarrow> bool" where
  "wf_json (JList xs) = (\<forall>x \<in> set xs. wf_json x)"
| "wf_json (JDict kvs) = (distinct (map fst kvs) \<and> (\<forall>kv \<in> set kvs. wf_json (snd kv)))"
| "wf_json v = True"

section \<open>Python's \<^verbatim>\<open>str\<close> and \<^verbatim>\<open>repr\<close>\<close>

definition digit_char :: "nat \<Rightarrow> char" where
  "digit_char d = ''0123456789abcdef'' ! d"

fun show_nat :: "nat \<Rightarrow> string" where
  "show_nat n = (if n < 10 then [digit_char n] else show_nat (n div 10) @ [digit_char (n mod 10)])"

declare show_nat.simps [simp del]

definition show_int :: "int \<Rightarrow> string" where
  "show_int i = (if i < 0 then CHR ''-'' # show_nat (nat (- i)) else show_nat (nat i))"

definition squote :: char where "squote = CHR 0x27"
definition dquote :: char where "dquote = CHR 0x22"
definition bslash :: char where "bslash = CHR 0x5C"

text \<open>One character of \<^verbatim>\<open>repr(s)\<close>, inside the quote \<open>q\<close>.\<close>

definition repr_char :: "char \<Rightarrow> char \<Rightarrow> string" where
  "repr_char q c =
     (if c = q \<or> c = bslash then [bslash, c]
      else if c = CHR 0x09 then [bslash, CHR ''t'']
      else if c = CHR 0x0A then [bslash, CHR ''n'']
      else if c = CHR 0x0D then [bslash, CHR ''r'']
      else if (of_char c :: nat) < 32 \<or> (of_char c :: nat) = 127
        then [bslash, CHR ''x'', digit_char (of_char c div 16), digit_char (of_char c mod 16)]
      else [c])"

text \<open>\<^verbatim>\<open>repr\<close> of a string: single quotes, unless the text has a single quote and no
  double quote.\<close>

definition repr_str :: "string \<Rightarrow> string" where
  "repr_str s =
     (let q = (if squote \<in> set s \<and> dquote \<notin> set s then dquote else squote)
      in q # concat (map (repr_char q) s) @ [q])"

fun join_str :: "string \<Rightarrow> string list \<Rightarrow> string" where
  "join_str sep [] = []"
| "join_str sep [x] = x"
| "join_str sep (x # y # ys) = x @ sep @ join_str sep (y # ys)"

lemma size_snd_dict_item:
  "kv \<in> set kvs \<Longrightarrow> size (snd kv) < Suc (size_list (size_prod (\<lambda>_. 0) size) kvs)"
  by (induction kvs) (auto simp: less_Suc_eq_le)

function py_repr :: "json \<Rightarrow> string" where
  "py_repr JNull = ''None''"
| "py_repr (JBool b) = (if b then ''True'' else ''False'')"
| "py_repr (JInt i) = show_int i"
| "py_repr (JStr s) = repr_str s"
| "py_repr (JList xs) = ''['' @ join_str '', '' (map py_repr xs) @ '']''"
| "py_repr (JDict kvs) =
     ''{'' @ join_str '', '' (map (\<lambda>kv. repr_str (fst kv) @ '': '' @ py_repr (snd kv)) kvs) @ ''}''"
  by pat_completeness auto
termination
  by (relation "measure size") (auto simp: size_snd_dict_item less_Suc_eq_le size_list_estimation')

text \<open>What an f-string substitutes for \<^verbatim>\<open>{v}\<close>: \<^verbatim>\<open>str(v)\<close>.\<close>

definition py_str :: "json \<Rightarrow> string" where
  "py_str v = (case v of JStr s \<Rightarrow> s | _ \<Rightarrow> py_repr v)"

section \<open>Python's \<^verbatim>\<open>==\<close>, \<^verbatim>\<open><\<close> and \<^verbatim>\<open>sorted\<close>\<close>

text \<open>\<^verbatim>\<open>a == b\<close>: a bool equals the int 0 or 1; lists are equal elementwise; dicts are
  equal when they have the same keys with equal values.\<close>

function (sequential) py_eq :: "json \<Rightarrow> json \<Rightarrow> bool" where
  "py_eq JNull JNull = True"
| "py_eq (JBool x) (JBool y) = (x = y)"
| "py_eq (JBool x) (JInt j) = ((if x then 1 else 0) = j)"
| "py_eq (JInt i) (JBool y) = (i = (if y then 1 else 0))"
| "py_eq (JInt i) (JInt j) = (i = j)"
| "py_eq (JStr s) (JStr t) = (s = t)"
| "py_eq (JList xs) (JList ys) = list_all2 py_eq xs ys"
| "py_eq (JDict kvs) (JDict lws) =
     (length kvs = length lws \<and>
      (\<forall>kv \<in> set kvs. case map_of lws (fst kv) of None \<Rightarrow> False | Some w \<Rightarrow> py_eq (snd kv) w))"
| "py_eq a b = False"
  by pat_completeness auto
termination
  by (relation "measure (\<lambda>(a, b). size a)")
     (auto simp: size_snd_dict_item less_Suc_eq_le size_list_estimation')

text \<open>\<^verbatim>\<open>a < b\<close>: numbers by value, strings lexicographically, lists by their first
  unequal elements (or by length when one is a prefix of the other); every other pair
  raises \<^verbatim>\<open>TypeError\<close>.\<close>

fun py_lt :: "json \<Rightarrow> json \<Rightarrow> bool result"
  and py_lt_list :: "json list \<Rightarrow> json list \<Rightarrow> bool result" where
  "py_lt (JBool x) (JBool y) = Inr (x < y)"
| "py_lt (JBool x) (JInt j) = Inr ((if x then 1 else 0) < j)"
| "py_lt (JInt i) (JBool y) = Inr (i < (if y then 1 else 0))"
| "py_lt (JInt i) (JInt j) = Inr (i < j)"
| "py_lt (JStr s) (JStr t) = Inr (s < t)"
| "py_lt (JList xs) (JList ys) = py_lt_list xs ys"
| "py_lt a b = Inl TypeError"
| "py_lt_list [] [] = Inr False"
| "py_lt_list [] (y # ys) = Inr True"
| "py_lt_list (x # xs) [] = Inr False"
| "py_lt_list (x # xs) (y # ys) = (if py_eq x y then py_lt_list xs ys else py_lt x y)"

definition comparable :: "json \<Rightarrow> json \<Rightarrow> bool" where
  "comparable a b = (case py_lt a b of Inl e \<Rightarrow> False | Inr r \<Rightarrow> True)"

definition lt_true :: "json \<Rightarrow> json \<Rightarrow> bool" where
  "lt_true a b = (py_lt a b = Inr True)"

fun insort_lt :: "json \<Rightarrow> json list \<Rightarrow> json list" where
  "insort_lt x [] = [x]"
| "insort_lt x (y # ys) = (if lt_true y x then y # insort_lt x ys else x # y # ys)"

text \<open>
  \<^verbatim>\<open>sorted(xs)\<close>. CPython sorts with Timsort, which compares with \<^verbatim>\<open><\<close> only and is
  stable. A list of at most one element is returned without any comparison. Otherwise
  every element takes part in some comparison, so a list that holds a value on which
  \<^verbatim>\<open><\<close> always raises (\<^verbatim>\<open>None\<close>, a dict), or values of two kinds that do not compare
  (a string and a number), raises \<^verbatim>\<open>TypeError\<close>; a list whose elements all compare is
  returned in stable sorted order. The model raises as soon as some pair of elements does
  not compare, which is exact for lists of scalars; for nested lists of which only some
  pairs compare, whether CPython raises depends on the comparisons Timsort happens to
  make, and the model then raises too.
\<close>

definition py_sorted :: "json list \<Rightarrow> json list result" where
  "py_sorted xs =
     (if length xs \<le> 1 then Inr xs
      else if list_all (\<lambda>x. list_all (comparable x) xs) xs then Inr (foldr insort_lt xs [])
      else Inl TypeError)"

section \<open>Python dicts built by the differ\<close>

text \<open>
  A dict keeps its keys in insertion order. Storing under a key that is already present
  (equal under \<^verbatim>\<open>==\<close>) replaces the value and keeps the old key and its position.
\<close>

fun dict_get :: "('k \<Rightarrow> 'k \<Rightarrow> bool) \<Rightarrow> ('k \<times> 'v) list \<Rightarrow> 'k \<Rightarrow> 'v option" where
  "dict_get eq [] k = None"
| "dict_get eq (kv # d) k = (if eq (fst kv) k then Some (snd kv) else dict_get eq d k)"

fun dict_set :: "('k \<Rightarrow> 'k \<Rightarrow> bool) \<Rightarrow> ('k \<times> 'v) list \<Rightarrow> 'k \<Rightarrow> 'v \<Rightarrow> ('k \<times> 'v) list" where
  "dict_set eq [] k v = [(k, v)]"
| "dict_set eq (kv # d) k v =
     (if eq (fst kv) k then (fst kv, v) # d else kv # dict_set eq d k v)"

text \<open>The comprehension \<^verbatim>\<open>{key(x): x for x in xs}\<close>, started from the dict \<open>d\<close>; the
  first key that cannot be computed raises.\<close>

fun build_dict ::
  "('k \<Rightarrow> 'k \<Rightarrow> bool) \<Rightarrow> (json \<Rightarrow> 'k result) \<Rightarrow> ('k \<times> json) list \<Rightarrow> json list
     \<Rightarrow> ('k \<times> json) list result" where
  "build_dict eq key d [] = Inr d"
| "build_dict eq key d (x # xs) =
     (case key x of Inl e \<Rightarrow> Inl e | Inr k \<Rightarrow> build_dict eq key (dict_set eq d k x) xs)"

text \<open>The results of the iterations of a loop whose body extends \<^verbatim>\<open>differences\<close>: the
  first iteration that raises ends the loop with its exception.\<close>

fun extend_all :: "string list result list \<Rightarrow> string list result" where
  "extend_all [] = Inr []"
| "extend_all (r # rs) =
     (case r of Inl e \<Rightarrow> Inl e
      | Inr ds \<Rightarrow> (case extend_all rs of Inl e \<Rightarrow> Inl e | Inr ds' \<Rightarrow> Inr (ds @ ds')))"

text \<open>\<^verbatim>\<open>m.get(k, default)\<close>: only a dict has the method.\<close>

definition py_get :: "json \<Rightarrow> string \<Rightarrow> json \<Rightarrow> json result" where
  "py_get m k dflt =
     (case m of
        JDict kvs \<Rightarrow> Inr (case map_of kvs k of None \<Rightarrow> dflt | Some v \<Rightarrow> v)
      | _ \<Rightarrow> Inl AttributeError)"

text \<open>\<^verbatim>\<open>tuple(v)\<close>: the elements of a list, the characters of a string, the keys of a
  dict; anything else is not iterable.\<close>

definition py_tuple :: "json \<Rightarrow> json list result" where
  "py_tuple v =
     (case v of
        JList xs \<Rightarrow> Inr xs
      | JStr s \<Rightarrow> Inr (map (\<lambda>c. JStr [c]) s)
      | JDict kvs \<Rightarrow> Inr (map (\<lambda>kv. JStr (fst kv)) kvs)
      | _ \<Rightarrow> Inl TypeError)"

text \<open>A list or a dict cannot be hashed, so it cannot be (part of) a dict key.\<close>

definition hashable :: "json \<Rightarrow> bool" where
  "hashable v = (\<not> is_list v \<and> \<not> is_dict v)"

text \<open>\<^verbatim>\<open>sep.join(xs)\<close> raises unless every element is a string.\<close>

definition py_join :: "string \<Rightarrow> json list \<Rightarrow> string result" where
  "py_join sep xs =
     (if list_all is_str xs then Inr (join_str sep (map str_val xs)) else Inl TypeError)"

definition endswith :: "string \<Rightarrow> string \<Rightarrow> bool" where
  "endswith s suf = suffix suf s"

section \<open>The keyed collections\<close>

text \<open>
  \<^verbatim>\<open>compare_methods\<close>, \<^verbatim>\<open>compare_fields\<close> and \<^verbatim>\<open>compare_constructors\<close> call
  \<^verbatim>\<open>compare_values\<close> back on the entries they match. The two graders carry the same text
  of the three functions, so each is written once here, over the \<^verbatim>\<open>compare_values\<close> it
  calls (the argument \<open>cv\<close>). Each function builds the two dicts and runs two loops; the
  body of each loop is a definition of its own.
\<close>

type_synonym differ = "json \<Rightarrow> json \<Rightarrow> string \<Rightarrow> string list result"

type_synonym signature = "json \<times> json list"

text \<open>\<^verbatim>\<open>(m.get('name', ''), tuple(m.get('params', [])))\<close>, as a dict key.\<close>

definition method_sig :: "json \<Rightarrow> signature result" where
  "method_sig m =
     (case py_get m ''name'' (JStr []) of Inl e \<Rightarrow> Inl e | Inr n \<Rightarrow>
      case py_get m ''params'' (JList []) of Inl e \<Rightarrow> Inl e | Inr ps \<Rightarrow>
      case py_tuple ps of Inl e \<Rightarrow> Inl e | Inr t \<Rightarrow>
      if hashable n \<and> list_all hashable t then Inr (n, t) else Inl TypeError)"

definition sig_eq :: "signature \<Rightarrow> signature \<Rightarrow> bool" where
  "sig_eq a b = (py_eq (fst a) (fst b) \<and> list_all2 py_eq (snd a) (snd b))"

text \<open>The body of \<^verbatim>\<open>for sig, ref_method in ref_map.items()\<close>.\<close>

definition method_entry ::
  "differ \<Rightarrow> (signature \<times> json) list \<Rightarrow> string \<Rightarrow> signature \<times> json \<Rightarrow> string list result" where
  "method_entry cv stu_map path item =
     (case dict_get sig_eq stu_map (fst item) of
        None \<Rightarrow> Inr [path @ '' - Missing method: '' @ py_str (fst (fst item))
                     @ '' with params '' @ py_str (JList (snd (fst item)))]
      | Some stu_method \<Rightarrow>
          (case py_join '','' (snd (fst item)) of Inl e \<Rightarrow> Inl e | Inr params \<Rightarrow>
           cv (snd item) stu_method
             (path @ ''.'' @ py_str (fst (fst item)) @ ''('' @ params @ '')'')))"

text \<open>The body of \<^verbatim>\<open>for sig in stu_map\<close>.\<close>

definition method_extra :: "(signature \<times> json) list \<Rightarrow> string \<Rightarrow> signature \<times> json \<Rightarrow> string list" where
  "method_extra ref_map path item =
     (if dict_get sig_eq ref_map (fst item) = None
      then [path @ '' - Extra method: '' @ py_str (fst (fst item))
             @ '' with params '' @ py_str (JList (snd (fst item)))]
      else [])"

definition compare_methods_of ::
  "differ \<Rightarrow> json list \<Rightarrow> json list \<Rightarrow> string \<Rightarrow> string list result" where
  "compare_methods_of cv ref_methods stu_methods path =
     (case build_dict sig_eq method_sig [] ref_methods of Inl e \<Rightarrow> Inl e | Inr ref_map \<Rightarrow>
      case build_dict sig_eq method_sig [] stu_methods of Inl e \<Rightarrow> Inl e | Inr stu_map \<Rightarrow>
      case extend_all (map (method_entry cv stu_map path) ref_map) of
        Inl e \<Rightarrow> Inl e
      | Inr differences \<Rightarrow> Inr (differences @ concat (map (method_extra ref_map path) stu_map)))"

text \<open>\<^verbatim>\<open>f.get('name', '')\<close>, as a dict key.\<close>

definition field_key :: "json \<Rightarrow> json result" where
  "field_key f =
     (case py_get f ''name'' (JStr []) of Inl e \<Rightarrow> Inl e | Inr n \<Rightarrow>
      if hashable n then Inr n else Inl TypeError)"

definition field_entry ::
  "differ \<Rightarrow> (json \<times> json) list \<Rightarrow> string \<Rightarrow> json \<times> json \<Rightarrow> string list result" where
  "field_entry cv stu_map path item =
     (case dict_get py_eq stu_map (fst item) of
        None \<Rightarrow> Inr [path @ '' - Missing field: '' @ py_str (fst item)]
      | Some stu_field \<Rightarrow> cv (snd item) stu_field (path @ ''.'' @ py_str (fst item)))"

definition field_extra :: "(json \<times> json) list \<Rightarrow> string \<Rightarrow> json \<times> json \<Rightarrow> string list" where
  "field_extra ref_map path item =
     (if dict_get py_eq ref_map (fst item) = None
      then [path @ '' - Extra field: '' @ py_str (fst item)]
      else [])"

definition compare_fields_of ::
  "differ \<Rightarrow> json list \<Rightarrow> json list \<Rightarrow> string \<Rightarrow> string list result" where
  "compare_fields_of cv ref_fields stu_fields path =
     (case build_dict py_eq field_key [] ref_fields of Inl e \<Rightarrow> Inl e | Inr ref_map \<Rightarrow>
      case build_dict py_eq field_key [] stu_fields of Inl e \<Rightarrow> Inl e | Inr stu_map \<Rightarrow>
      case extend_all (map (field_entry cv stu_map path) ref_map) of
        Inl e \<Rightarrow> Inl e
      | Inr differences \<Rightarrow> Inr (differences @ concat (map (field_extra ref_map path) stu_map)))"

text \<open>\<^verbatim>\<open>tuple(c.get('params', []))\<close>, as a dict key.\<close>

definition ctor_key :: "json \<Rightarrow> json list result" where
  "ctor_key c =
     (case py_get c ''params'' (JList []) of Inl e \<Rightarrow> Inl e | Inr ps \<Rightarrow>
      case py_tuple ps of Inl e \<Rightarrow> Inl e | Inr t \<Rightarrow>
      if list_all hashable t then Inr t else Inl TypeError)"

definition ctor_entry ::
  "differ \<Rightarrow> (json list \<times> json) list \<Rightarrow> string \<Rightarrow> json list \<times> json \<Rightarrow> string list result" where
  "ctor_entry cv stu_map path item =
     (case dict_get (list_all2 py_eq) stu_map (fst item) of
        None \<Rightarrow> Inr [path @ '' - Missing constructor with params '' @ py_str (JList (fst item))]
      | Some stu_ctor \<Rightarrow>
          (case py_join '','' (fst item) of Inl e \<Rightarrow> Inl e | Inr params \<Rightarrow>
           cv (snd item) stu_ctor (path @ ''.constructor('' @ params @ '')'')))"

definition ctor_extra :: "(json list \<times> json) list \<Rightarrow> string \<Rightarrow> json list \<times> json \<Rightarrow> string list" where
  "ctor_extra ref_map path item =
     (if dict_get (list_all2 py_eq) ref_map (fst item) = None
      then [path @ '' - Extra constructor with params '' @ py_str (JList (fst item))]
      else [])"

definition compare_constructors_of ::
  "differ \<Rightarrow> json list \<Rightarrow> json list \<Rightarrow> string \<Rightarrow> string list result" where
  "compare_constructors_of cv ref_ctors stu_ctors path =
     (case build_dict (list_all2 py_eq) ctor_key [] ref_ctors of Inl e \<Rightarrow> Inl e | Inr ref_map \<Rightarrow>
      case build_dict (list_all2 py_eq) ctor_key [] stu_ctors of Inl e \<Rightarrow> Inl e | Inr stu_map \<Rightarrow>
      case extend_all (map (ctor_entry cv stu_map path) ref_map) of
        Inl e \<Rightarrow> Inl e
      | Inr differences \<Rightarrow> Inr (differences @ concat (map (ctor_extra ref_map path) stu_map)))"

text \<open>Every value of a dict built by a comprehension over \<open>xs\<close> is an element of \<open>xs\<close>;
  so the three functions call \<open>cv\<close> on elements of their two lists only.\<close>

lemma dict_set_values: "set (map snd (dict_set eq d k v)) \<subseteq> insert v (set (map snd d))"
  by (induction d) auto

lemma build_dict_values:
  "build_dict eq key d xs = Inr m \<Longrightarrow> set (map snd m) \<subseteq> set (map snd d) \<union> set xs"
proof (induction xs arbitrary: d)
  case Nil
  then show ?case by simp
next
  case (Cons x xs)
  from Cons.prems obtain k where k: "key x = Inr k"
    and rest: "build_dict eq key (dict_set eq d k x) xs = Inr m"
    by (auto split: sum.splits)
  from Cons.IH [OF rest] dict_set_values [of eq d k x] show ?case by auto
qed

lemma build_dict_value_in:
  "build_dict eq key [] xs = Inr m \<Longrightarrow> item \<in> set m \<Longrightarrow> snd item \<in> set xs"
  using build_dict_values [of eq key "[]" xs m] by auto

lemma dict_get_value_in: "dict_get eq d k = Some v \<Longrightarrow> \<exists>item \<in> set d. snd item = v"
  by (induction d) (auto split: if_splits)

lemma dict_get_built_in:
  "build_dict eq key [] xs = Inr m \<Longrightarrow> dict_get eq m k = Some v \<Longrightarrow> v \<in> set xs"
  using build_dict_value_in dict_get_value_in by metis

lemma method_entry_cong:
  assumes "build_dict sig_eq method_sig [] ref_methods = Inr ref_map"
    and "build_dict sig_eq method_sig [] stu_methods = Inr stu_map"
    and "\<And>m m' p. m \<in> set ref_methods \<Longrightarrow> m' \<in> set stu_methods \<Longrightarrow> cv m m' p = cv' m m' p"
    and "item \<in> set ref_map"
  shows "method_entry cv stu_map path item = method_entry cv' stu_map path item"
  using assms(3) build_dict_value_in [OF assms(1) assms(4)] dict_get_built_in [OF assms(2)]
  by (auto simp: method_entry_def split: option.splits sum.splits)

lemma field_entry_cong:
  assumes "build_dict py_eq field_key [] ref_fields = Inr ref_map"
    and "build_dict py_eq field_key [] stu_fields = Inr stu_map"
    and "\<And>m m' p. m \<in> set ref_fields \<Longrightarrow> m' \<in> set stu_fields \<Longrightarrow> cv m m' p = cv' m m' p"
    and "item \<in> set ref_map"
  shows "field_entry cv stu_map path item = field_entry cv' stu_map path item"
  using assms(3) build_dict_value_in [OF assms(1) assms(4)] dict_get_built_in [OF assms(2)]
  by (auto simp: field_entry_def split: option.splits sum.splits)

lemma ctor_entry_cong:
  assumes "build_dict (list_all2 py_eq) ctor_key [] ref_ctors = Inr ref_map"
    and "build_dict (list_all2 py_eq) ctor_key [] stu_ctors = Inr stu_map"
    and "\<And>m m' p. m \<in> set ref_ctors \<Longrightarrow> m' \<in> set stu_ctors \<Longrightarrow> cv m m' p = cv' m m' p"
    and "item \<in> set ref_map"
  shows "ctor_entry cv stu_map path item = ctor_entry cv' stu_map path item"
  using assms(3) build_dict_value_in [OF assms(1) assms(4)] dict_get_built_in [OF assms(2)]
  by (auto simp: ctor_entry_def split: option.splits sum.splits)

lemma compare_methods_of_cong [fundef_cong]:
  assumes "ref_methods = ref_methods'" "stu_methods = stu_methods'" "path = path'"
    and "\<And>m m' p. m \<in> set ref_methods' \<Longrightarrow> m' \<in> set stu_methods' \<Longrightarrow> cv m m' p = cv' m m' p"
  shows "compare_methods_of cv ref_methods stu_methods path
       = compare_methods_of cv' ref_methods' stu_methods' path'"
proof -
  have "extend_all (map (method_entry cv stu_map path') ref_map)
      = extend_all (map (method_entry cv' stu_map path') ref_map)"
    if "build_dict sig_eq method_sig [] ref_methods' = Inr ref_map"
      and "build_dict sig_eq method_sig [] stu_methods' = Inr stu_map" for ref_map stu_map
    by (rule arg_cong [where f = extend_all], rule map_cong [OF refl])
       (rule method_entry_cong [OF that assms(4)])
  then show ?thesis
    unfolding compare_methods_of_def assms(1-3)
    by (cases "build_dict sig_eq method_sig [] ref_methods'";
        cases "build_dict sig_eq method_sig [] stu_methods'") simp_all
qed

lemma compare_fields_of_cong [fundef_cong]:
  assumes "ref_fields = ref_fields'" "stu_fields = stu_fields'" "path = path'"
    and "\<And>m m' p. m \<in> set ref_fields' \<Longrightarrow> m' \<in> set stu_fields' \<Longrightarrow> cv m m' p = cv' m m' p"
  shows "compare_fields_of cv ref_fields stu_fields path
       = compare_fields_of cv' ref_fields' stu_fields' path'"
proof -
  have "extend_all (map (field_entry cv stu_map path') ref_map)
      = extend_all (map (field_entry cv' stu_map path') ref_map)"
    if "build_dict py_eq field_key [] ref_fields' = Inr ref_map"
      and "build_dict py_eq field_key [] stu_fields' = Inr stu_map" for ref_map stu_map
    by (rule arg_cong [where f = extend_all], rule map_cong [OF refl])
       (rule field_entry_cong [OF that assms(4)])
  then show ?thesis
    unfolding compare_fields_of_def assms(1-3)
    by (cases "build_dict py_eq field_key [] ref_fields'";
        cases "build_dict py_eq field_key [] stu_fields'") simp_all
qed

lemma compare_constructors_of_cong [fundef_cong]:
  assumes "ref_ctors = ref_ctors'" "stu_ctors = stu_ctors'" "path = path'"
    and "\<And>m m' p. m \<in> set ref_ctors' \<Longrightarrow> m' \<in> set stu_ctors' \<Longrightarrow> cv m m' p = cv' m m' p"
  shows "compare_constructors_of cv ref_ctors stu_ctors path
       = compare_constructors_of cv' ref_ctors' stu_ctors' path'"
proof -
  have "extend_all (map (ctor_entry cv stu_map path') ref_map)
      = extend_all (map (ctor_entry cv' stu_map path') ref_map)"
    if "build_dict (list_all2 py_eq) ctor_key [] ref_ctors' = Inr ref_map"
      and "build_dict (list_all2 py_eq) ctor_key [] stu_ctors' = Inr stu_map" for ref_map stu_map
    by (rule arg_cong [where f = extend_all], rule map_cong [OF refl])
       (rule ctor_entry_cong [OF that assms(4)])
  then show ?thesis
    unfolding compare_constructors_of_def assms(1-3)
    by (cases "build_dict (list_all2 py_eq) ctor_key [] ref_ctors'";
        cases "build_dict (list_all2 py_eq) ctor_key [] stu_ctors'") simp_all
qed

section \<open>The value differ of \<^verbatim>\<open>scripts/grade_uml_structure.py\<close>\<close>

text \<open>The bodies of the two loops over the keys of a dict.\<close>

definition missing_key :: "string \<Rightarrow> string \<Rightarrow> string list" where
  "missing_key path key = [path @ ''.'' @ key @ '' - Missing key'']"

definition extra_key :: "json \<Rightarrow> string \<Rightarrow> string \<times> json \<Rightarrow> string list" where
  "extra_key ref_val path item =
     (if map_of (dict_items ref_val) (fst item) = None
      then [path @ ''.'' @ fst item @ '' - Extra key'']
      else [])"

text \<open>The branch for \<^verbatim>\<open>.extends\<close> and \<^verbatim>\<open>.implements\<close>; \<^verbatim>\<open>!=\<close> on two lists compares
  them elementwise with \<^verbatim>\<open>==\<close>.\<close>

definition compare_sorted :: "json list \<Rightarrow> json list \<Rightarrow> string \<Rightarrow> string list result" where
  "compare_sorted ref_val stu_val path =
     (case py_sorted ref_val of Inl e \<Rightarrow> Inl e | Inr sorted_ref \<Rightarrow>
      case py_sorted stu_val of Inl e \<Rightarrow> Inl e | Inr sorted_stu \<Rightarrow>
      (if \<not> list_all2 py_eq sorted_ref sorted_stu
       then Inr [path @ '' - Content mismatch: expected '' @ py_str (JList sorted_ref)
                  @ '', got '' @ py_str (JList sorted_stu)]
       else Inr []))"

lemma size_dict_item: "item \<in> set (dict_items v) \<Longrightarrow> size (snd item) < size v"
  by (cases v) (auto dest: size_snd_dict_item)

lemma size_list_item: "x \<in> set (list_items v) \<Longrightarrow> size x < size v"
  by (cases v) (auto simp: less_Suc_eq_le size_list_estimation')

lemma enumerate_item_in: "(i, x) \<in> set (enumerate n xs) \<Longrightarrow> x \<in> set xs"
  by (metis in_set_zipE enumerate_eq_zip)

lemma size_zip_item: "(i, x, y) \<in> set (enumerate n (zip (list_items v) ys)) \<Longrightarrow> size x < size v"
  by (auto dest!: enumerate_item_in set_zip_leftD intro: size_list_item)

function compare_values :: differ where
  "compare_values ref_val stu_val path =
     (if type_of ref_val \<noteq> type_of stu_val
      then Inr [path @ '' - Type mismatch: expected '' @ type_name (type_of ref_val)
                 @ '', got '' @ type_name (type_of stu_val)]
      else if is_dict ref_val then
        (case extend_all (map (\<lambda>item.
                case map_of (dict_items stu_val) (fst item) of
                  None \<Rightarrow> Inr (missing_key path (fst item))
                | Some stu_item \<Rightarrow> compare_values (snd item) stu_item (path @ ''.'' @ fst item))
              (dict_items ref_val)) of
           Inl e \<Rightarrow> Inl e
         | Inr differences \<Rightarrow>
             Inr (differences @ concat (map (extra_key ref_val path) (dict_items stu_val))))
      else if is_list ref_val then
        (if endswith path ''.methods''
         then compare_methods_of compare_values (list_items ref_val) (list_items stu_val) path
         else if endswith path ''.fields''
         then compare_fields_of compare_values (list_items ref_val) (list_items stu_val) path
         else if endswith path ''.constructors''
         then compare_constructors_of compare_values (list_items ref_val) (list_items stu_val) path
         else if endswith path ''.extends'' \<or> endswith path ''.implements''
         then compare_sorted (list_items ref_val) (list_items stu_val) path
         else
           (case extend_all (map (\<lambda>(i, ref_item, stu_item).
                   compare_values ref_item stu_item (path @ ''['' @ show_nat i @ '']''))
                 (enumerate 0 (zip (list_items ref_val) (list_items stu_val)))) of
              Inl e \<Rightarrow> Inl e
            | Inr differences \<Rightarrow>
                Inr ((if length (list_items ref_val) \<noteq> length (list_items stu_val)
                      then [path @ '' - Length mismatch: expected '' @ py_str ref_val
                             @ '' ('' @ show_nat (length (list_items ref_val)) @ '' items), got ''
                             @ py_str stu_val
                             @ '' ('' @ show_nat (length (list_items stu_val)) @ '' items)'']
                      else []) @ differences)))
      else
        (if \<not> py_eq ref_val stu_val
         then Inr [path @ '' - Value mismatch: expected '' @ py_str ref_val
                    @ '', got '' @ py_str stu_val]
         else Inr []))"
  by pat_completeness auto
termination
  by (relation "measure (\<lambda>(ref_val, stu_val, path). size ref_val)")
     (auto intro: size_dict_item [where item = "(k, v)" for k v, simplified]
        size_list_item size_zip_item)

declare compare_values.simps [simp del]

definition compare_methods :: "json list \<Rightarrow> json list \<Rightarrow> string \<Rightarrow> string list result" where
  "compare_methods = compare_methods_of compare_values"

definition compare_fields :: "json list \<Rightarrow> json list \<Rightarrow> string \<Rightarrow> string list result" where
  "compare_fields = compare_fields_of compare_values"

definition compare_constructors :: "json list \<Rightarrow> json list \<Rightarrow> string \<Rightarrow> string list result" where
  "compare_constructors = compare_constructors_of compare_values"

section \<open>The value differ of the grading script generated by \<^verbatim>\<open>main.py\<close>\<close>

text \<open>The copy inside \<^verbatim>\<open>grading_script\<close> differs in the last branch for lists: the
  message has no item counts, and the elements are compared only when the lengths agree.\<close>

function compare_values_main :: differ where
  "compare_values_main ref_val stu_val path =
     (if type_of ref_val \<noteq> type_of stu_val
      then Inr [path @ '' - Type mismatch: expected '' @ type_name (type_of ref_val)
                 @ '', got '' @ type_name (type_of stu_val)]
      else if is_dict ref_val then
        (case extend_all (map (\<lambda>item.
                case map_of (dict_items stu_val) (fst item) of
                  None \<Rightarrow> Inr (missing_key path (fst item))
                | Some stu_item \<Rightarrow>
                    compare_values_main (snd item) stu_item (path @ ''.'' @ fst item))
              (dict_items ref_val)) of
           Inl e \<Rightarrow> Inl e
         | Inr differences \<Rightarrow>
             Inr (differences @ concat (map (extra_key ref_val path) (dict_items stu_val))))
      else if is_list ref_val then
        (if endswith path ''.methods''
         then compare_methods_of compare_values_main (list_items ref_val) (list_items stu_val) path
         else if endswith path ''.fields''
         then compare_fields_of compare_values_main (list_items ref_val) (list_items stu_val) path
         else if endswith path ''.constructors''
         then compare_constructors_of compare_values_main
                (list_items ref_val) (list_items stu_val) path
         else if endswith path ''.extends'' \<or> endswith path ''.implements''
         then compare_sorted (list_items ref_val) (list_items stu_val) path
         else
           (if length (list_items ref_val) \<noteq> length (list_items stu_val)
            then Inr [path @ '' - Length mismatch: expected '' @ py_str ref_val
                       @ '', got '' @ py_str stu_val]
            else extend_all (map (\<lambda>(i, ref_item, stu_item).
                   compare_values_main ref_item stu_item (path @ ''['' @ show_nat i @ '']''))
                 (enumerate 0 (zip (list_items ref_val) (list_items stu_val))))))
      else
        (if \<not> py_eq ref_val stu_val
         then Inr [path @ '' - Value mismatch: expected '' @ py_str ref_val
                    @ '', got '' @ py_str stu_val]
         else Inr []))"
  by pat_completeness auto
termination
  by (relation "measure (\<lambda>(ref_val, stu_val, path). size ref_val)")
     (auto intro: size_dict_item [where item = "(k, v)" for k v, simplified]
        size_list_item size_zip_item)

declare compare_values_main.simps [simp del]

section \<open>The corpus comparator\<close>

text \<open>
  \<^verbatim>\<open>compare_uml_files\<close> receives what \<^verbatim>\<open>json.load\<close> read from the solution file and
  what \<^verbatim>\<open>process_directory\<close> built: a list of class descriptions, or a dict from class
  names to class descriptions. The keys of such a dict are the \<^verbatim>\<open>name\<close> values of the
  classes, so they are values, compared with \<^verbatim>\<open>==\<close>.
\<close>

datatype corpus = Seq "json list" | Mapping "(json \<times> json) list"

text \<open>\<^verbatim>\<open>"name" in item\<close>: a key of a dict, an element of a list, or a substring of a
  string.\<close>

definition contains_name :: "json \<Rightarrow> bool result" where
  "contains_name item =
     (case item of
        JDict kvs \<Rightarrow> Inr (map_of kvs ''name'' \<noteq> None)
      | JList xs \<Rightarrow> Inr (list_ex (py_eq (JStr ''name'')) xs)
      | JStr s \<Rightarrow> Inr (sublist ''name'' s)
      | _ \<Rightarrow> Inl TypeError)"

text \<open>\<^verbatim>\<open>item["name"]\<close>\<close>

definition subscript_name :: "json \<Rightarrow> json result" where
  "subscript_name item =
     (case item of
        JDict kvs \<Rightarrow> (case map_of kvs ''name'' of None \<Rightarrow> Inl KeyError | Some v \<Rightarrow> Inr v)
      | _ \<Rightarrow> Inl TypeError)"

text \<open>\<^verbatim>\<open>{item["name"]: item for item in data if "name" in item}\<close>, started from \<open>d\<close>.\<close>

fun name_keyed :: "(json \<times> json) list \<Rightarrow> json list \<Rightarrow> (json \<times> json) list result" where
  "name_keyed d [] = Inr d"
| "name_keyed d (item # items) =
     (case contains_name item of
        Inl e \<Rightarrow> Inl e
      | Inr c \<Rightarrow>
          if c then
            (case subscript_name item of
               Inl e \<Rightarrow> Inl e
             | Inr k \<Rightarrow> if hashable k then name_keyed (dict_set py_eq d k item) items
                         else Inl TypeError)
          else name_keyed d items)"

text \<open>The two \<^verbatim>\<open>isinstance(..., list)\<close> steps.\<close>

fun corpus_dict :: "corpus \<Rightarrow> (json \<times> json) list result" where
  "corpus_dict (Seq items) = name_keyed [] items"
| "corpus_dict (Mapping d) = Inr d"

definition class_entry :: "differ \<Rightarrow> (json \<times> json) list \<Rightarrow> json \<times> json \<Rightarrow> string list result" where
  "class_entry cv student_data item =
     (case dict_get py_eq student_data (fst item) of
        None \<Rightarrow> Inr [''Missing class: '' @ py_str (fst item)]
      | Some stu_class \<Rightarrow> cv (snd item) stu_class (''Class '' @ py_str (fst item)))"

definition class_extra :: "(json \<times> json) list \<Rightarrow> json \<times> json \<Rightarrow> string list" where
  "class_extra ref_data item =
     (if dict_get py_eq ref_data (fst item) = None
      then [''Extra class: '' @ py_str (fst item)]
      else [])"

definition compare_uml_files_of :: "differ \<Rightarrow> corpus \<Rightarrow> corpus \<Rightarrow> string list result" where
  "compare_uml_files_of cv ref_input student_input =
     (case corpus_dict ref_input of Inl e \<Rightarrow> Inl e | Inr ref_data \<Rightarrow>
      case corpus_dict student_input of Inl e \<Rightarrow> Inl e | Inr student_data \<Rightarrow>
      case extend_all (map (class_entry cv student_data) ref_data) of
        Inl e \<Rightarrow> Inl e
      | Inr differences \<Rightarrow> Inr (differences @ concat (map (class_extra ref_data) student_data)))"

definition compare_uml_files :: "corpus \<Rightarrow> corpus \<Rightarrow> string list result" where
  "compare_uml_files = compare_uml_files_of compare_values"

definition compare_uml_files_main :: "corpus \<Rightarrow> corpus \<Rightarrow> string list result" where
  "compare_uml_files_main = compare_uml_files_of compare_values_main"

section \<open>Predicates used to state the properties\<close>

text \<open>A scalar is a value that is neither a list nor a dict.\<close>

definition scalar :: "json \<Rightarrow> bool" where
  "scalar v = (\<not> is_dict v \<and> \<not> is_list v)"

text \<open>A path that selects one of the special strategies when two lists are compared at
  it; at every other path two lists are compared by position.\<close>

definition sniffed :: "string \<Rightarrow> bool" where
  "sniffed path = (endswith path ''.methods'' \<or> endswith path ''.fields''
     \<or> endswith path ''.constructors'' \<or> endswith path ''.extends''
     \<or> endswith path ''.implements'')"




text \<open>The representative of a hashable value among the values equal to it under \<^verbatim>\<open>==\<close>:
  \<^verbatim>\<open>True\<close> is \<^verbatim>\<open>1\<close> and \<^verbatim>\<open>False\<close> is \<^verbatim>\<open>0\<close>.\<close>

definition canon :: "json \<Rightarrow> json" where
  "canon v = (case v of JBool b \<Rightarrow> JInt (if b then 1 else 0) | _ \<Rightarrow> v)"

text \<open>On the keys that can be hashed (\<open>good\<close>), the key equality \<open>eq\<close> is equality of
  representatives (\<open>nf\<close>); and a key function returns only keys that can be hashed.\<close>

definition key_nf :: "('k \<Rightarrow> bool) \<Rightarrow> ('k \<Rightarrow> 'k \<Rightarrow> bool) \<Rightarrow> ('k \<Rightarrow> 'n) \<Rightarrow> bool" where
  "key_nf good eq nf = (\<forall>a b. good a \<longrightarrow> good b \<longrightarrow> eq a b = (nf a = nf b))"

definition key_good :: "(json \<Rightarrow> 'k result) \<Rightarrow> ('k \<Rightarrow> bool) \<Rightarrow> bool" where
  "key_good key good = (\<forall>x k. key x = Inr k \<longrightarrow> good k)"

text \<open>A dict with every key replaced by its representative.\<close>

definition nf_dict :: "('k \<Rightarrow> 'n) \<Rightarrow> ('k \<times> 'v) list \<Rightarrow> ('n \<times> 'v) list" where
  "nf_dict nf d = map (\<lambda>e. (nf (fst e), snd e)) d"

text \<open>The shape the three keyed comparisons share: two dicts, a loop over the reference
  dict and a loop over the candidate dict.\<close>

definition keyed_compare ::
  "('k \<Rightarrow> 'k \<Rightarrow> bool) \<Rightarrow> (json \<Rightarrow> 'k result)
    \<Rightarrow> (('k \<times> json) list \<Rightarrow> 'k \<times> json \<Rightarrow> string list result)
    \<Rightarrow> (('k \<times> json) list \<Rightarrow> 'k \<times> json \<Rightarrow> string list)
    \<Rightarrow> json list \<Rightarrow> json list \<Rightarrow> string list result" where
  "keyed_compare eq key entry extra ref_items stu_items =
     (case build_dict eq key [] ref_items of Inl e \<Rightarrow> Inl e | Inr ref_map \<Rightarrow>
      case build_dict eq key [] stu_items of Inl e \<Rightarrow> Inl e | Inr stu_map \<Rightarrow>
      case extend_all (map (entry stu_map) ref_map) of
        Inl e \<Rightarrow> Inl e
      | Inr differences \<Rightarrow> Inr (differences @ concat (map (extra ref_map) stu_map)))"

text \<open>The signatures that can be dict keys, and their representatives.\<close>

definition good_sig :: "signature \<Rightarrow> bool" where
  "good_sig s = (hashable (fst s) \<and> list_all hashable (snd s))"

definition nf_sig :: "signature \<Rightarrow> signature" where
  "nf_sig s = (canon (fst s), map canon (snd s))"




text \<open>Two entries with the same signature, and a list of methods in which no two entries
  have the same signature.\<close>

definition same_sig :: "json \<Rightarrow> json \<Rightarrow> bool" where
  "same_sig m m' =
     (case method_sig m of Inl e \<Rightarrow> False
      | Inr a \<Rightarrow> (case method_sig m' of Inl e \<Rightarrow> False | Inr b \<Rightarrow> sig_eq a b))"

fun no_shared_sig :: "json list \<Rightarrow> bool" where
  "no_shared_sig [] = True"
| "no_shared_sig (m # ms) = ((\<forall>m' \<in> set ms. \<not> same_sig m m') \<and> no_shared_sig ms)"

text \<open>Three methods.\<close>

definition get_int :: json where
  "get_int = JDict [(''name'', JStr ''get''), (''params'', JList []), (''returns'', JStr ''int'')]"

definition get_long :: json where
  "get_long = JDict [(''name'', JStr ''get''), (''params'', JList []), (''returns'', JStr ''long'')]"

definition set_int :: json where
  "set_int = JDict [(''name'', JStr ''set''), (''params'', JList [JStr ''int''])]"

text \<open>The branches of \<^verbatim>\<open>compare_values\<close>, over the \<^verbatim>\<open>compare_values\<close> they call.\<close>

definition dict_branch :: "differ \<Rightarrow> json \<Rightarrow> json \<Rightarrow> string \<Rightarrow> string list result" where
  "dict_branch cv ref_val stu_val path =
     (case extend_all (map (\<lambda>item.
             case map_of (dict_items stu_val) (fst item) of
               None \<Rightarrow> Inr (missing_key path (fst item))
             | Some stu_item \<Rightarrow> cv (snd item) stu_item (path @ ''.'' @ fst item))
           (dict_items ref_val)) of
        Inl e \<Rightarrow> Inl e
      | Inr differences \<Rightarrow>
          Inr (differences @ concat (map (extra_key ref_val path) (dict_items stu_val))))"

definition positional_loop :: "differ \<Rightarrow> json \<Rightarrow> json \<Rightarrow> string \<Rightarrow> string list result" where
  "positional_loop cv ref_val stu_val path =
     extend_all (map (\<lambda>(i, ref_item, stu_item).
         cv ref_item stu_item (path @ ''['' @ show_nat i @ '']''))
       (enumerate 0 (zip (list_items ref_val) (list_items stu_val))))"

text \<open>A discrepancy that reads as a Length mismatch, and a sequence without any.\<close>

definition length_line :: "string \<Rightarrow> bool" where
  "length_line d = sublist '' - Length mismatch: expected '' d"

definition no_length_line :: "string list \<Rightarrow> bool" where
  "no_length_line ds = (\<forall>d \<in> set ds. \<not> length_line d)"

definition list_branch :: "differ \<Rightarrow> json \<Rightarrow> json \<Rightarrow> string \<Rightarrow> string list result \<Rightarrow> string list result" where
  "list_branch cv ref_val stu_val path positional =
     (if endswith path ''.methods''
      then compare_methods_of cv (list_items ref_val) (list_items stu_val) path
      else if endswith path ''.fields''
      then compare_fields_of cv (list_items ref_val) (list_items stu_val) path
      else if endswith path ''.constructors''
      then compare_constructors_of cv (list_items ref_val) (list_items stu_val) path
      else if endswith path ''.extends'' \<or> endswith path ''.implements''
      then compare_sorted (list_items ref_val) (list_items stu_val) path
      else positional)"

definition scalar_branch :: "json \<Rightarrow> json \<Rightarrow> string \<Rightarrow> string list result" where
  "scalar_branch ref_val stu_val path =
     (if \<not> py_eq ref_val stu_val
      then Inr [path @ '' - Value mismatch: expected '' @ py_str ref_val
                 @ '', got '' @ py_str stu_val]
      else Inr [])"

definition type_mismatch :: "json \<Rightarrow> json \<Rightarrow> string \<Rightarrow> string list result" where
  "type_mismatch ref_val stu_val path =
     Inr [path @ '' - Type mismatch: expected '' @ type_name (type_of ref_val)
           @ '', got '' @ type_name (type_of stu_val)]"

text \<open>Two differs return the same sequences without a Length mismatch on the reference
  values in \<open>X\<close>.\<close>

definition agree_on :: "json set \<Rightarrow> differ \<Rightarrow> differ \<Rightarrow> bool" where
  "agree_on X cv1 cv2 =
     (\<forall>m \<in> X. \<forall>m' q ds. no_length_line ds \<longrightarrow> (cv1 m m' q = Inr ds \<longleftrightarrow> cv2 m m' q = Inr ds))"

text \<open>A key that selects no special strategy for a list stored under it, whatever the
  path before it; and a value all of whose keys, at any depth, are such keys.\<close>

definition neutral_key :: "string \<Rightarrow> bool" where
  "neutral_key k = (\<not> sniffed (''.'' @ k))"

fun plain :: "json \<Rightarrow> bool" where
  "plain (JList xs) = (\<forall>x \<in> set xs. plain x)"
| "plain (JDict kvs) = (\<forall>kv \<in> set kvs. neutral_key (fst kv) \<and> plain (snd kv))"
| "plain v = True"

text \<open>
  A class description as section 6 of the specification gives it, with further
  attributes whose keys select no special strategy: \<^verbatim>\<open>extends\<close> and \<^verbatim>\<open>implements\<close>
  are lists of strings; \<^verbatim>\<open>fields\<close>, \<^verbatim>\<open>methods\<close> and \<^verbatim>\<open>constructors\<close> are lists
  of dicts whose \<^verbatim>\<open>name\<close> is a string and whose \<^verbatim>\<open>params\<close> is a list of strings, when
  present.
\<close>

definition string_list :: "json \<Rightarrow> bool" where
  "string_list v = (is_list v \<and> list_all is_str (list_items v))"

definition attr_ok :: "string \<Rightarrow> (json \<Rightarrow> bool) \<Rightarrow> json \<Rightarrow> bool" where
  "attr_ok k P m = (case map_of (dict_items m) k of None \<Rightarrow> True | Some v \<Rightarrow> P v)"

definition field_ok :: "json \<Rightarrow> bool" where
  "field_ok f = (is_dict f \<and> plain f \<and> attr_ok ''name'' is_str f)"

definition method_ok :: "json \<Rightarrow> bool" where
  "method_ok m = (is_dict m \<and> plain m \<and> attr_ok ''name'' is_str m
     \<and> attr_ok ''params'' string_list m)"

definition ctor_ok :: "json \<Rightarrow> bool" where
  "ctor_ok c = (is_dict c \<and> plain c \<and> attr_ok ''params'' string_list c)"

definition list_of :: "(json \<Rightarrow> bool) \<Rightarrow> json \<Rightarrow> bool" where
  "list_of P v = (is_list v \<and> list_all P (list_items v))"

definition class_attribute :: "string \<times> json \<Rightarrow> bool" where
  "class_attribute kv =
     (if fst kv = ''methods'' then list_of method_ok (snd kv)
      else if fst kv = ''fields'' then list_of field_ok (snd kv)
      else if fst kv = ''constructors'' then list_of ctor_ok (snd kv)
      else if fst kv = ''extends'' \<or> fst kv = ''implements'' then string_list (snd kv)
      else neutral_key (fst kv) \<and> plain (snd kv))"

definition class_structure :: "json \<Rightarrow> bool" where
  "class_structure c = (is_dict c \<and> list_all class_attribute (dict_items c))"

text \<open>The shape of section 6 alone, whatever the further attributes are.\<close>

definition field_shape :: "json \<Rightarrow> bool" where
  "field_shape f = (is_dict f \<and> attr_ok ''name'' is_str f)"

definition method_shape :: "json \<Rightarrow> bool" where
  "method_shape m = (is_dict m \<and> attr_ok ''name'' is_str m \<and> attr_ok ''params'' string_list m)"

definition ctor_shape :: "json \<Rightarrow> bool" where
  "ctor_shape c = (is_dict c \<and> attr_ok ''params'' string_list c)"

definition class_shape :: "json \<Rightarrow> bool" where
  "class_shape c = (is_dict c \<and> wf_json c \<and> attr_ok ''name'' is_str c
     \<and> attr_ok ''extends'' string_list c \<and> attr_ok ''implements'' string_list c
     \<and> attr_ok ''fields'' (list_of field_shape) c
     \<and> attr_ok ''methods'' (list_of method_shape) c
     \<and> attr_ok ''constructors'' (list_of ctor_shape) c)"

text \<open>Three descriptions of a class \<^verbatim>\<open>Foo\<close>; in the third, the field has a further
  attribute named \<^verbatim>\<open>methods\<close>.\<close>

definition foo_reference :: json where
  "foo_reference = JDict
     [(''name'', JStr ''Foo''), (''abstract'', JBool False),
      (''extends'', JList [JStr ''Base'']), (''implements'', JList []),
      (''fields'', JList [JDict [(''name'', JStr ''x''), (''type'', JStr ''int'')]]),
      (''methods'', JList [JDict [(''name'', JStr ''bar''), (''params'', JList [JStr ''int'']),
          (''modifiers'', JList [JStr ''public''])]]),
      (''constructors'', JList [JDict [(''params'', JList [])]])]"

definition foo_candidate :: json where
  "foo_candidate = JDict
     [(''name'', JStr ''Foo''), (''abstract'', JBool False),
      (''extends'', JList [JStr ''Base'']), (''implements'', JList []),
      (''fields'', JList [JDict [(''name'', JStr ''x''), (''type'', JStr ''long'')]]),
      (''methods'', JList []),
      (''constructors'', JList [JDict [(''params'', JList [])]])]"

definition foo_accessors :: json where
  "foo_accessors = JDict
     [(''name'', JStr ''Foo''),
      (''fields'', JList [JDict [(''name'', JStr ''x''), (''methods'', JList [JStr ''getX''])]])]"


section \<open>The equations of \<^verbatim>\<open>compare_values\<close>, branch by branch\<close>

lemma compare_values_type_mismatch:
  "type_of ref_val \<noteq> type_of stu_val \<Longrightarrow>
   compare_values ref_val stu_val path =
     Inr [path @ '' - Type mismatch: expected '' @ type_name (type_of ref_val)
           @ '', got '' @ type_name (type_of stu_val)]"
  by (subst compare_values.simps) simp

lemma compare_values_dict:
  "compare_values (JDict r) (JDict s) path =
     (case extend_all (map (\<lambda>item.
             case map_of s (fst item) of
               None \<Rightarrow> Inr (missing_key path (fst item))
             | Some stu_item \<Rightarrow> compare_values (snd item) stu_item (path @ ''.'' @ fst item)) r) of
        Inl e \<Rightarrow> Inl e
      | Inr differences \<Rightarrow> Inr (differences @ concat (map (extra_key (JDict r) path) s)))"
  by (subst compare_values.simps) (simp add: is_dict_def split: sum.split)

lemma compare_values_methods:
  "endswith path ''.methods'' \<Longrightarrow>
   compare_values (JList r) (JList s) path = compare_methods r s path"
  by (subst compare_values.simps) (simp add: is_dict_def is_list_def compare_methods_def)

lemma compare_values_fields:
  "\<not> endswith path ''.methods'' \<Longrightarrow> endswith path ''.fields'' \<Longrightarrow>
   compare_values (JList r) (JList s) path = compare_fields r s path"
  by (subst compare_values.simps) (simp add: is_dict_def is_list_def compare_fields_def)

lemma compare_values_constructors:
  "\<not> endswith path ''.methods'' \<Longrightarrow> \<not> endswith path ''.fields'' \<Longrightarrow>
   endswith path ''.constructors'' \<Longrightarrow>
   compare_values (JList r) (JList s) path = compare_constructors r s path"
  by (subst compare_values.simps) (simp add: is_dict_def is_list_def compare_constructors_def)

lemma compare_values_sorted:
  "\<not> endswith path ''.methods'' \<Longrightarrow> \<not> endswith path ''.fields'' \<Longrightarrow>
   \<not> endswith path ''.constructors'' \<Longrightarrow>
   endswith path ''.extends'' \<or> endswith path ''.implements'' \<Longrightarrow>
   compare_values (JList r) (JList s) path = compare_sorted r s path"
  by (subst compare_values.simps) (simp add: is_dict_def is_list_def)

lemma compare_values_positional:
  "\<not> sniffed path \<Longrightarrow>
   compare_values (JList r) (JList s) path =
     (case extend_all (map (\<lambda>(i, ref_item, stu_item).
             compare_values ref_item stu_item (path @ ''['' @ show_nat i @ '']''))
           (enumerate 0 (zip r s))) of
        Inl e \<Rightarrow> Inl e
      | Inr differences \<Rightarrow>
          Inr ((if length r \<noteq> length s
                then [path @ '' - Length mismatch: expected '' @ py_str (JList r)
                       @ '' ('' @ show_nat (length r) @ '' items), got '' @ py_str (JList s)
                       @ '' ('' @ show_nat (length s) @ '' items)'']
                else []) @ differences))"
  by (subst compare_values.simps) (simp add: is_dict_def is_list_def sniffed_def split: sum.split)

lemma py_eq_scalar: "scalar a \<Longrightarrow> type_of a = type_of b \<Longrightarrow> py_eq a b = (a = b)"
  by (cases a; cases b) (auto simp: scalar_def is_dict_def is_list_def)

lemma compare_values_scalar:
  "scalar ref_val \<Longrightarrow> type_of ref_val = type_of stu_val \<Longrightarrow>
   compare_values ref_val stu_val path =
     (if ref_val \<noteq> stu_val
      then Inr [path @ '' - Value mismatch: expected '' @ py_str ref_val
                 @ '', got '' @ py_str stu_val]
      else Inr [])"
  by (subst compare_values.simps) (simp add: scalar_def py_eq_scalar)

lemma compare_values_main_type_mismatch:
  "type_of ref_val \<noteq> type_of stu_val \<Longrightarrow>
   compare_values_main ref_val stu_val path =
     Inr [path @ '' - Type mismatch: expected '' @ type_name (type_of ref_val)
           @ '', got '' @ type_name (type_of stu_val)]"
  by (subst compare_values_main.simps) simp

lemma compare_values_main_positional:
  "\<not> sniffed path \<Longrightarrow>
   compare_values_main (JList r) (JList s) path =
     (if length r \<noteq> length s
      then Inr [path @ '' - Length mismatch: expected '' @ py_str (JList r)
                 @ '', got '' @ py_str (JList s)]
      else extend_all (map (\<lambda>(i, ref_item, stu_item).
             compare_values_main ref_item stu_item (path @ ''['' @ show_nat i @ '']''))
           (enumerate 0 (zip r s))))"
  by (subst compare_values_main.simps) (simp add: is_dict_def is_list_def sniffed_def)

section \<open>Positional sequences of different lengths\<close>

text \<open>
  In the grading script generated by \<^verbatim>\<open>main.py\<close>, two lists of different lengths at a
  path that selects no special strategy give the Length mismatch line and nothing else,
  whatever their elements are.
\<close>

lemma compare_values_main_length_mismatch:
  "\<not> sniffed path \<Longrightarrow> length r \<noteq> length s \<Longrightarrow>
   compare_values_main (JList r) (JList s) path =
     Inr [path @ '' - Length mismatch: expected '' @ py_str (JList r)
           @ '', got '' @ py_str (JList s)]"
  by (simp add: compare_values_main_positional)

text \<open>
  C1. Two positional sequences of different lengths give exactly one discrepancy, the
  Length mismatch, and their elements are not compared. The differ of
  \<^verbatim>\<open>scripts/grade_uml_structure.py\<close> has no \<^verbatim>\<open>else\<close> before its loop over the
  elements: on \<^verbatim>\<open>[1, 2]\<close> against \<^verbatim>\<open>[3]\<close> it reports the Length mismatch and then
  compares the first elements as well, so it returns two discrepancies.
\<close>

theorem standalone_length_mismatch_recurses:
  "\<not> sniffed ''p'' \<and>
   compare_values (JList [JInt 1, JInt 2]) (JList [JInt 3]) ''p'' =
     Inr [''p - Length mismatch: expected [1, 2] (2 items), got [3] (1 items)'',
          ''p[0] - Value mismatch: expected 1, got 3'']"
  by code_simp

section \<open>Scalars\<close>

text \<open>
  C7, as the code has it. Two scalars of different Python types give one Type mismatch
  discrepancy; two scalars of the same type give no discrepancy when they are equal and
  one Value mismatch discrepancy otherwise.
\<close>

theorem scalar_comparison:
  assumes "scalar ref_val" and "scalar stu_val"
  shows "compare_values ref_val stu_val path =
     (if type_of ref_val \<noteq> type_of stu_val
      then Inr [path @ '' - Type mismatch: expected '' @ type_name (type_of ref_val)
                 @ '', got '' @ type_name (type_of stu_val)]
      else if ref_val = stu_val then Inr []
      else Inr [path @ '' - Value mismatch: expected '' @ py_str ref_val
                 @ '', got '' @ py_str stu_val])"
  using assms by (simp add: compare_values_type_mismatch compare_values_scalar)

theorem scalar_comparison_witness:
  "scalar (JStr ''int'') \<and> scalar (JStr ''long'') \<and>
   compare_values (JStr ''int'') (JStr ''long'') ''Class Foo.fields.x.type''
     = Inr [''Class Foo.fields.x.type - Value mismatch: expected int, got long'']"
  using scalar_comparison [of "JStr ''int''" "JStr ''long''" "''Class Foo.fields.x.type''"]
  by (simp add: scalar_def is_dict_def is_list_def py_str_def)

text \<open>
  C7 as stated fails: \<^verbatim>\<open>True\<close> and \<^verbatim>\<open>1\<close> are scalars that are equal under \<^verbatim>\<open>==\<close>,
  yet the differ reports a discrepancy for them, and it is a Type mismatch, not a Value
  mismatch.
\<close>

theorem scalar_type_mismatch_counterexample:
  "scalar (JBool True) \<and> scalar (JInt 1) \<and> py_eq (JBool True) (JInt 1) \<and>
   compare_values (JBool True) (JInt 1) ''p'' = Inr [''p - Type mismatch: expected bool, got int'']"
  by code_simp

section \<open>The unordered sequences \<^verbatim>\<open>extends\<close> and \<^verbatim>\<open>implements\<close>\<close>

lemma endswith_excl:
  "\<not> suffix a b \<Longrightarrow> \<not> suffix b a \<Longrightarrow> endswith path a \<Longrightarrow> \<not> endswith path b"
  unfolding endswith_def using suffix_same_cases by blast

lemma extends_not_keyed:
  assumes "endswith path ''.extends''"
  shows "\<not> endswith path ''.methods''" "\<not> endswith path ''.fields''"
    "\<not> endswith path ''.constructors''"
  by (rule endswith_excl [OF _ _ assms]; simp add: suffix_to_prefix)+

lemma implements_not_keyed:
  assumes "endswith path ''.implements''"
  shows "\<not> endswith path ''.methods''" "\<not> endswith path ''.fields''"
    "\<not> endswith path ''.constructors''"
  by (rule endswith_excl [OF _ _ assms]; simp add: suffix_to_prefix)+

lemma sorted_path_not_keyed:
  assumes "endswith path ''.extends'' \<or> endswith path ''.implements''"
  shows "\<not> endswith path ''.methods''" "\<not> endswith path ''.fields''"
    "\<not> endswith path ''.constructors''"
  using assms extends_not_keyed implements_not_keyed by blast+

lemma insort_lt_strings:
  "insort_lt (JStr x) (map JStr ys) = map JStr (insort x ys)"
  by (induction ys) (auto simp: lt_true_def)

lemma foldr_insort_lt_strings:
  "foldr insort_lt (map JStr xs) [] = map JStr (sort xs)"
  by (induction xs) (simp_all add: sort_key_def insort_lt_strings)

lemma comparable_strings: "list_all (\<lambda>x. list_all (comparable x) (map JStr xs)) (map JStr xs)"
  by (simp add: list_all_iff comparable_def)

lemma sort_short: "length xs \<le> 1 \<Longrightarrow> sort xs = xs"
  by (cases xs) (auto simp: sort_key_def)

lemma py_sorted_strings: "py_sorted (map JStr xs) = Inr (map JStr (sort xs))"
  using comparable_strings [of xs]
  by (simp add: py_sorted_def foldr_insort_lt_strings sort_short)

lemma strings_eq: "list_all2 py_eq (map JStr xs) (map JStr ys) = (xs = ys)"
  by (simp add: list_all2_map1 list_all2_map2 list.rel_eq)

lemma sort_eq_iff_mset: "sort xs = sort ys \<longleftrightarrow> mset xs = mset ys"
  by (metis mset_sort properties_for_sort sorted_sort)

lemma strings_are_JStr: "list_all is_str xs \<Longrightarrow> \<exists>ss. xs = map JStr ss"
proof (induction xs)
  case Nil
  then show ?case by simp
next
  case (Cons x xs)
  then obtain ss where "xs = map JStr ss" by auto
  moreover from Cons.prems obtain s where "x = JStr s" by (cases x) (auto simp: is_str_def)
  ultimately have "x # xs = map JStr (s # ss)" by simp
  then show ?case ..
qed

lemma mset_JStr: "mset (map JStr xs) = mset (map JStr ys) \<longleftrightarrow> mset xs = mset ys"
  by (metis (mono_tags, lifting) inj_onI json.inject(3) mset_map multiset.inj_map_strong)

text \<open>
  C5, as the code has it. Two sequences of strings compared at a path ending in
  \<^verbatim>\<open>.extends\<close> or \<^verbatim>\<open>.implements\<close> give no discrepancy iff they are equal as multisets;
  otherwise they give exactly one discrepancy, the Content mismatch naming both sorted
  sequences, and their elements are not compared one by one.
\<close>

theorem unordered_string_sets:
  assumes "endswith path ''.extends'' \<or> endswith path ''.implements''"
    and "list_all is_str ref_val" and "list_all is_str stu_val"
  shows "compare_values (JList ref_val) (JList stu_val) path =
     (if mset ref_val = mset stu_val then Inr []
      else Inr [path @ '' - Content mismatch: expected ''
                 @ py_str (JList (map JStr (sort (map str_val ref_val))))
                 @ '', got '' @ py_str (JList (map JStr (sort (map str_val stu_val))))])"
proof -
  from assms(2) obtain rs where rs: "ref_val = map JStr rs" using strings_are_JStr by blast
  from assms(3) obtain ss where ss: "stu_val = map JStr ss" using strings_are_JStr by blast
  have vals: "map str_val (map JStr xs) = xs" for xs by (induction xs) simp_all
  have "compare_values (JList ref_val) (JList stu_val) path = compare_sorted ref_val stu_val path"
    using assms(1) by (simp add: compare_values_sorted sorted_path_not_keyed)
  then show ?thesis
    unfolding rs ss vals
    by (simp add: compare_sorted_def py_sorted_strings strings_eq sort_eq_iff_mset mset_JStr
        del: mset_map)
qed

theorem unordered_string_sets_witness:
  "(endswith ''Class Foo.extends'' ''.extends'' \<or> endswith ''Class Foo.extends'' ''.implements'')
   \<and> list_all is_str [JStr ''A'', JStr ''B''] \<and> list_all is_str [JStr ''B'', JStr ''A'']
   \<and> compare_values (JList [JStr ''A'', JStr ''B'']) (JList [JStr ''B'', JStr ''A''])
        ''Class Foo.extends'' = Inr []"
  using unordered_string_sets [of "''Class Foo.extends''" "[JStr ''A'', JStr ''B'']"
      "[JStr ''B'', JStr ''A'']"]
  by (simp add: endswith_def suffix_to_prefix is_str_def add_mset_commute)

text \<open>
  C5 as stated, for sequences of scalars, fails: \<^verbatim>\<open>None\<close> is a scalar, and
  \<^verbatim>\<open>sorted([None, None])\<close> raises \<^verbatim>\<open>TypeError\<close>, so the comparison of two equal
  sequences returns no discrepancy sequence at all.
\<close>

theorem sorted_null_counterexample:
  "scalar JNull \<and> endswith ''Class Foo.extends'' ''.extends'' \<and>
   compare_values (JList [JNull, JNull]) (JList [JNull, JNull]) ''Class Foo.extends''
     = Inl TypeError"
  by code_simp

section \<open>Loops that extend the list of differences\<close>

lemma extend_all_map_Inr [simp]: "extend_all (map Inr dss) = Inr (concat dss)"
  by (induction dss) simp_all

lemma extend_all_InrD:
  "extend_all rs = Inr ds \<Longrightarrow> \<exists>dss. rs = map Inr dss \<and> ds = concat dss"
proof (induction rs arbitrary: ds)
  case Nil
  then show ?case by simp
next
  case (Cons r rs)
  from Cons.prems obtain d ds' where r: "r = Inr d" and rest: "extend_all rs = Inr ds'"
    and ds: "ds = d @ ds'"
    by (auto split: sum.splits)
  from Cons.IH [OF rest] obtain dss where "rs = map Inr dss" "ds' = concat dss" by blast
  with r ds have "r # rs = map Inr (d # dss) \<and> ds = concat (d # dss)" by simp
  then show ?case ..
qed

lemma extend_all_Inr_iff:
  "extend_all rs = Inr ds \<longleftrightarrow> (\<exists>dss. rs = map Inr dss \<and> ds = concat dss)"
  using extend_all_InrD by auto

lemma extend_all_member:
  assumes "extend_all (map f xs) = Inr ds" and "x \<in> set xs"
  shows "\<exists>d. f x = Inr d \<and> set d \<subseteq> set ds"
proof -
  from assms(1) obtain dss where dss: "map f xs = map Inr dss" "ds = concat dss"
    by (auto simp: extend_all_Inr_iff)
  from assms(2) obtain i where i: "i < length xs" "xs ! i = x" by (auto simp: in_set_conv_nth)
  from dss(1) have len: "length dss = length xs" by (metis length_map)
  from dss(1) i len have "f x = Inr (dss ! i)" by (metis nth_map)
  moreover from i len have "dss ! i \<in> set dss" by simp
  with dss(2) have "set (dss ! i) \<subseteq> set ds" by auto
  ultimately show ?thesis by blast
qed

lemma extend_all_total:
  assumes "\<And>x. x \<in> set xs \<Longrightarrow> \<exists>d. f x = Inr d"
  shows "\<exists>ds. extend_all (map f xs) = Inr ds"
proof -
  from assms have "\<exists>dss. map f xs = map Inr dss"
  proof (induction xs)
    case Nil
    then show ?case by simp
  next
    case (Cons x xs)
    then obtain dss d where "map f xs = map Inr dss" "f x = Inr d" by (metis list.set_intros)
    then have "map f (x # xs) = map Inr (d # dss)" by simp
    then show ?case ..
  qed
  then show ?thesis by (auto simp: extend_all_Inr_iff)
qed

section \<open>The corpus comparator\<close>

lemma dict_set_entries:
  "entry \<in> set (dict_set eq d k v) \<Longrightarrow>
   entry \<in> set d \<or> entry = (k, v) \<or> (\<exists>e \<in> set d. eq (fst e) k \<and> entry = (fst e, v))"
  by (induction d) (auto split: if_splits)












section \<open>Dict keys and their representatives\<close>

lemma key_nf_I: "(\<And>a b. good a \<Longrightarrow> good b \<Longrightarrow> eq a b = (nf a = nf b)) \<Longrightarrow> key_nf good eq nf"
  by (simp add: key_nf_def)

lemma key_nf_D: "key_nf good eq nf \<Longrightarrow> good a \<Longrightarrow> good b \<Longrightarrow> eq a b = (nf a = nf b)"
  by (simp add: key_nf_def)

lemma py_eq_canon: "hashable a \<Longrightarrow> hashable b \<Longrightarrow> py_eq a b = (canon a = canon b)"
  by (cases a; cases b) (auto simp: canon_def hashable_def is_list_def is_dict_def)

lemma list_py_eq_canon:
  "list_all hashable xs \<Longrightarrow> list_all hashable ys \<Longrightarrow>
   list_all2 py_eq xs ys = (map canon xs = map canon ys)"
proof (induction xs arbitrary: ys)
  case Nil
  then show ?case by auto
next
  case (Cons x xs)
  then show ?case by (cases ys) (auto simp: py_eq_canon)
qed

lemma sig_eq_canon: "good_sig a \<Longrightarrow> good_sig b \<Longrightarrow> sig_eq a b = (nf_sig a = nf_sig b)"
  by (auto simp: good_sig_def nf_sig_def sig_eq_def py_eq_canon list_py_eq_canon)



lemma method_sig_good: "method_sig x = Inr k \<Longrightarrow> good_sig k"
  by (auto simp: method_sig_def good_sig_def split: sum.splits if_splits)



lemma method_keys: "key_nf good_sig sig_eq nf_sig" "key_good method_sig good_sig"
  by (simp_all add: key_nf_def key_good_def sig_eq_canon method_sig_good)

text \<open>Facts about the dicts, for a key equality that is equality of representatives on
  the keys that can be hashed.\<close>

lemma dict_get_nf_aux:
  "\<forall>e \<in> set d. eq (fst e) k = (nf (fst e) = nf k) \<Longrightarrow>
   dict_get eq d k = map_of (nf_dict nf d) (nf k)"
  by (induction d) (simp_all add: nf_dict_def)

lemma dict_set_nf_aux:
  "\<forall>e \<in> set d. eq (fst e) k = (nf (fst e) = nf k) \<Longrightarrow>
   map_of (nf_dict nf (dict_set eq d k v)) = (map_of (nf_dict nf d))(nf k \<mapsto> v)"
  by (induction d) (simp_all add: nf_dict_def fun_upd_twist)

lemma dict_set_nf_keys_aux:
  "\<forall>e \<in> set d. eq (fst e) k = (nf (fst e) = nf k) \<Longrightarrow>
   map fst (nf_dict nf (dict_set eq d k v))
       = (if nf k \<in> set (map fst (nf_dict nf d)) then map fst (nf_dict nf d)
          else map fst (nf_dict nf d) @ [nf k])"
  by (induction d) (simp_all add: nf_dict_def)

lemma dict_get_nf:
  assumes "key_nf good eq nf"
    and "\<forall>e \<in> set d. good (fst e)" and "good k"
  shows "dict_get eq d k = map_of (nf_dict nf d) (nf k)"
  by (rule dict_get_nf_aux) (use assms in \<open>unfold key_nf_def, blast\<close>)

lemma dict_set_good:
  "\<forall>e \<in> set d. good (fst e) \<Longrightarrow> good k \<Longrightarrow> \<forall>e \<in> set (dict_set eq d k v). good (fst e)"
  by (induction d) auto

lemma dict_set_nf:
  assumes "key_nf good eq nf"
    and "\<forall>e \<in> set d. good (fst e)" and "good k"
  shows "map_of (nf_dict nf (dict_set eq d k v)) = (map_of (nf_dict nf d))(nf k \<mapsto> v)"
  by (rule dict_set_nf_aux) (use assms in \<open>unfold key_nf_def, blast\<close>)

lemma dict_set_nf_keys:
  assumes "key_nf good eq nf"
    and "\<forall>e \<in> set d. good (fst e)" and "good k"
  shows "map fst (nf_dict nf (dict_set eq d k v))
       = (if nf k \<in> set (map fst (nf_dict nf d)) then map fst (nf_dict nf d)
          else map fst (nf_dict nf d) @ [nf k])"
  by (rule dict_set_nf_keys_aux) (use assms in \<open>unfold key_nf_def, blast\<close>)

lemma dict_set_nf_distinct:
  assumes "key_nf good eq nf"
    and "\<forall>e \<in> set d. good (fst e)" and "good k" and "distinct (map fst (nf_dict nf d))"
  shows "distinct (map fst (nf_dict nf (dict_set eq d k v)))"
proof -
  have "\<forall>e \<in> set d. eq (fst e) k = (nf (fst e) = nf k)" using assms(1-3) unfolding key_nf_def by blast
  then have "map fst (nf_dict nf (dict_set eq d k v))
       = (if nf k \<in> set (map fst (nf_dict nf d)) then map fst (nf_dict nf d)
          else map fst (nf_dict nf d) @ [nf k])"
    by (rule dict_set_nf_keys_aux)
  with assms(4) show ?thesis by simp
qed

lemma build_dict_nf:
  assumes eqnf: "key_nf good eq nf"
    and "key_good key good"
    and "build_dict eq key d xs = Inr m"
    and "\<forall>e \<in> set d. good (fst e)" and "distinct (map fst (nf_dict nf d))"
  shows "(\<forall>e \<in> set m. good (fst e)) \<and> distinct (map fst (nf_dict nf m))
    \<and> (\<forall>x \<in> set xs. \<exists>k. key x = Inr k \<and> nf k \<in> set (map fst (nf_dict nf m)))
    \<and> set (map fst (nf_dict nf d)) \<subseteq> set (map fst (nf_dict nf m))"
  using assms(3-5)
proof (induction xs arbitrary: d)
  case Nil
  then show ?case by simp
next
  case (Cons x xs)
  from Cons.prems(1) obtain k where k: "key x = Inr k"
    and rest: "build_dict eq key (dict_set eq d k x) xs = Inr m"
    by (auto split: sum.splits)
  have gk: "good k" using k assms(2) unfolding key_good_def by blast
  let ?d' = "dict_set eq d k x"
  have local: "\<forall>e \<in> set d. eq (fst e) k = (nf (fst e) = nf k)"
    using eqnf Cons.prems(2) gk unfolding key_nf_def by blast
  have keys': "map fst (nf_dict nf ?d')
       = (if nf k \<in> set (map fst (nf_dict nf d)) then map fst (nf_dict nf d)
          else map fst (nf_dict nf d) @ [nf k])"
    using local by (rule dict_set_nf_keys_aux)
  have good': "\<forall>e \<in> set ?d'. good (fst e)"
    using Cons.prems(2) gk by (rule dict_set_good)
  have dist': "distinct (map fst (nf_dict nf ?d'))"
    unfolding keys' using Cons.prems(3) by simp
  have IH: "(\<forall>e \<in> set m. good (fst e)) \<and> distinct (map fst (nf_dict nf m))
    \<and> (\<forall>x \<in> set xs. \<exists>k. key x = Inr k \<and> nf k \<in> set (map fst (nf_dict nf m)))
    \<and> set (map fst (nf_dict nf ?d')) \<subseteq> set (map fst (nf_dict nf m))"
    using rest good' dist' by (rule Cons.IH)
  have here: "nf k \<in> set (map fst (nf_dict nf ?d'))"
    unfolding keys' by simp
  have sub: "set (map fst (nf_dict nf d)) \<subseteq> set (map fst (nf_dict nf ?d'))"
    unfolding keys' by auto
  from IH here have "\<exists>k. key x = Inr k \<and> nf k \<in> set (map fst (nf_dict nf m))"
    using k by blast
  moreover from IH sub have "set (map fst (nf_dict nf d)) \<subseteq> set (map fst (nf_dict nf m))"
    by blast
  ultimately show ?case using IH by simp
qed

lemma build_dict_props:
  assumes "key_nf good eq nf"
    and "key_good key good"
    and "build_dict eq key [] xs = Inr m"
  shows "\<forall>e \<in> set m. good (fst e)" "distinct (map fst (nf_dict nf m))"
    "\<forall>x \<in> set xs. \<exists>k. key x = Inr k \<and> nf k \<in> set (map fst (nf_dict nf m))"
  using build_dict_nf [OF assms(1,2,3)] by (simp_all add: nf_dict_def)



section \<open>The keyed comparisons, line by line\<close>

lemma compare_methods_keyed:
  "compare_methods_of cv r s path =
     keyed_compare sig_eq method_sig (\<lambda>stu_map. method_entry cv stu_map path)
       (\<lambda>ref_map. method_extra ref_map path) r s"
  by (simp add: compare_methods_of_def keyed_compare_def)

lemma compare_fields_keyed:
  "compare_fields_of cv r s path =
     keyed_compare py_eq field_key (\<lambda>stu_map. field_entry cv stu_map path)
       (\<lambda>ref_map. field_extra ref_map path) r s"
  by (simp add: compare_fields_of_def keyed_compare_def)

lemma compare_constructors_keyed:
  "compare_constructors_of cv r s path =
     keyed_compare (list_all2 py_eq) ctor_key (\<lambda>stu_map. ctor_entry cv stu_map path)
       (\<lambda>ref_map. ctor_extra ref_map path) r s"
  by (simp add: compare_constructors_of_def keyed_compare_def)













section \<open>Entries without their key attribute\<close>




section \<open>Permuting a keyed collection\<close>

lemma mset_concat_map_perm:
  "mset xs' = mset xs \<Longrightarrow> mset (concat (map g xs')) = mset (concat (map g xs))"
proof -
  assume eq: "mset xs' = mset xs"
  have "mset (concat (map g ys)) = sum_mset (image_mset (\<lambda>x. mset (g x)) (mset ys))" for ys
    by (induction ys) simp_all
  with eq show ?thesis by simp
qed

lemma extend_all_perm:
  assumes "extend_all (map f xs) = Inr ds" and "mset xs' = mset xs"
  shows "\<exists>ds'. extend_all (map f xs') = Inr ds' \<and> mset ds' = mset ds"
proof -
  let ?g = "\<lambda>x. projr (f x)"
  have all: "f x = Inr (?g x)" if "x \<in> set xs" for x
    using extend_all_member [OF assms(1) that] by auto
  have m: "map f ys = map Inr (map ?g ys)" if "set ys \<subseteq> set xs" for ys
    using that all by (induction ys) auto
  have ext: "extend_all (map f ys) = Inr (concat (map ?g ys))" if "set ys \<subseteq> set xs" for ys
  proof -
    have "extend_all (map f ys) = extend_all (map Inr (map ?g ys))"
      using m [OF that] by (rule arg_cong)
    then show ?thesis by (simp only: extend_all_map_Inr)
  qed
  from assms(2) have "set xs' = set xs" by (rule mset_eq_setD)
  then have "extend_all (map f xs') = Inr (concat (map ?g xs'))"
    by (intro ext) simp
  moreover have "ds = concat (map ?g xs)"
    using assms(1) ext [of xs] by simp
  ultimately show ?thesis
    using mset_concat_map_perm [OF assms(2), of ?g] by simp
qed

lemma dict_set_fresh:
  "\<forall>e \<in> set d. \<not> eq (fst e) k \<Longrightarrow> dict_set eq d k v = d @ [(k, v)]"
  by (induction d) simp_all

lemma build_dict_distinct_aux:
  assumes "key_nf good eq nf" and "key_good key good"
    and "\<forall>e \<in> set d. good (fst e)"
    and "\<forall>x \<in> set xs. \<exists>k. key x = Inr k"
    and "distinct (map (\<lambda>e. nf (fst e)) d @ map (\<lambda>x. nf (projr (key x))) xs)"
  shows "build_dict eq key d xs = Inr (d @ map (\<lambda>x. (projr (key x), x)) xs)"
  using assms(3-5)
proof (induction xs arbitrary: d)
  case Nil
  then show ?case by simp
next
  case (Cons x xs)
  from Cons.prems(2) obtain k where k: "key x = Inr k" by auto
  with assms(2) have gk: "good k" by (auto simp: key_good_def)
  have "\<not> eq (fst e) k" if "e \<in> set d" for e
  proof -
    from that Cons.prems(1) have "good (fst e)" by blast
    with gk assms(1) have "eq (fst e) k = (nf (fst e) = nf k)" by (simp add: key_nf_def)
    moreover from Cons.prems(3) k have "nf k \<notin> (\<lambda>e. nf (fst e)) ` set d" by auto
    with that have "nf (fst e) \<noteq> nf k" by force
    ultimately show ?thesis by simp
  qed
  then have set: "dict_set eq d k x = d @ [(k, x)]" by (simp add: dict_set_fresh)
  have "build_dict eq key (d @ [(k, x)]) xs
      = Inr ((d @ [(k, x)]) @ map (\<lambda>x. (projr (key x), x)) xs)"
    by (rule Cons.IH) (use Cons.prems gk k in auto)
  with k set show ?case by simp
qed

lemma build_dict_distinct:
  assumes "key_nf good eq nf" and "key_good key good"
    and "\<forall>x \<in> set xs. \<exists>k. key x = Inr k"
    and "distinct (map (\<lambda>x. nf (projr (key x))) xs)"
  shows "build_dict eq key [] xs = Inr (map (\<lambda>x. (projr (key x), x)) xs)"
  using build_dict_distinct_aux [OF assms(1,2), of "[]" xs] assms(3,4) by simp

lemma dict_get_perm:
  assumes "key_nf good eq nf"
    and "\<forall>e \<in> set m. good (fst e)" and "good k"
    and "distinct (map fst (nf_dict nf m))" and "mset m' = mset m"
  shows "dict_get eq m' k = dict_get eq m k"
proof -
  from assms(5) have sets: "set m' = set m" by (rule mset_eq_setD)
  have "mset (map fst (nf_dict nf m')) = mset (map fst (nf_dict nf m))"
    using assms(5) by (simp add: nf_dict_def)
  with assms(4) have d': "distinct (map fst (nf_dict nf m'))"
    using mset_eq_imp_distinct_iff by blast
  from sets have "set (nf_dict nf m') = set (nf_dict nf m)" by (simp add: nf_dict_def)
  with assms(4) d' have "map_of (nf_dict nf m') = map_of (nf_dict nf m)"
    by (simp add: map_of_inject_set)
  moreover have "dict_get eq m' k = map_of (nf_dict nf m') (nf k)"
    by (rule dict_get_nf [OF assms(1) _ assms(3)]) (use sets assms(2) in simp)
  moreover have "dict_get eq m k = map_of (nf_dict nf m) (nf k)"
    by (rule dict_get_nf [OF assms(1,2,3)])
  ultimately show ?thesis by simp
qed


lemma keyed_compare_perm:
  assumes nfk: "key_nf good eq nf" and kg: "key_good key good"
    and entry_dep: "\<forall>sm sm' item. dict_get eq sm' (fst item) = dict_get eq sm (fst item)
        \<longrightarrow> entry sm' item = entry sm item"
    and extra_dep: "\<forall>rm rm' item. dict_get eq rm' (fst item) = dict_get eq rm (fst item)
        \<longrightarrow> extra rm' item = extra rm item"
    and pr: "mset ref' = mset ref" and ps: "mset stu' = mset stu"
    and dr: "distinct (map (\<lambda>x. nf (projr (key x))) ref)"
    and dst: "distinct (map (\<lambda>x. nf (projr (key x))) stu)"
    and res: "keyed_compare eq key entry extra ref stu = Inr ds"
  shows "\<exists>ds'. keyed_compare eq key entry extra ref' stu' = Inr ds' \<and> mset ds' = mset ds"
proof -
  let ?kv = "\<lambda>x. (projr (key x), x)"
  from res obtain rm sm ds1 where rm: "build_dict eq key [] ref = Inr rm"
    and sm: "build_dict eq key [] stu = Inr sm"
    and ds1: "extend_all (map (entry sm) rm) = Inr ds1"
    and ds: "ds = ds1 @ concat (map (extra rm) sm)"
    by (auto simp: keyed_compare_def split: sum.splits)
  note rprops = build_dict_props [OF nfk kg rm]
  note sprops = build_dict_props [OF nfk kg sm]
  have rkeys: "\<forall>x \<in> set ref. \<exists>k. key x = Inr k" using rprops(3) by blast
  have skeys: "\<forall>x \<in> set stu. \<exists>k. key x = Inr k" using sprops(3) by blast
  have rm_eq: "rm = map ?kv ref"
    using build_dict_distinct [OF nfk kg rkeys dr] rm by simp
  have sm_eq: "sm = map ?kv stu"
    using build_dict_distinct [OF nfk kg skeys dst] sm by simp
  from pr have setr: "set ref' = set ref" by (rule mset_eq_setD)
  from ps have sets: "set stu' = set stu" by (rule mset_eq_setD)
  have dr': "distinct (map (\<lambda>x. nf (projr (key x))) ref')"
  proof -
    have "mset (map (\<lambda>x. nf (projr (key x))) ref') = mset (map (\<lambda>x. nf (projr (key x))) ref)"
      using pr by simp
    with dr show ?thesis using mset_eq_imp_distinct_iff by blast
  qed
  have ds': "distinct (map (\<lambda>x. nf (projr (key x))) stu')"
  proof -
    have "mset (map (\<lambda>x. nf (projr (key x))) stu') = mset (map (\<lambda>x. nf (projr (key x))) stu)"
      using ps by simp
    with dst show ?thesis using mset_eq_imp_distinct_iff by blast
  qed
  define rm' where "rm' = map ?kv ref'"
  define sm' where "sm' = map ?kv stu'"
  have rm': "build_dict eq key [] ref' = Inr rm'"
    unfolding rm'_def by (rule build_dict_distinct [OF nfk kg _ dr']) (use rkeys setr in simp)
  have sm': "build_dict eq key [] stu' = Inr sm'"
    unfolding sm'_def by (rule build_dict_distinct [OF nfk kg _ ds']) (use skeys sets in simp)
  have mrm: "mset rm' = mset rm" using pr by (simp add: rm_eq rm'_def)
  have msm: "mset sm' = mset sm" using ps by (simp add: sm_eq sm'_def)
  note rprops' = build_dict_props [OF nfk kg rm']
  note sprops' = build_dict_props [OF nfk kg sm']
  have get_s: "dict_get eq sm' k = dict_get eq sm k" if "good k" for k
    by (rule dict_get_perm [OF nfk sprops(1) that sprops(2) msm])
  have get_r: "dict_get eq rm' k = dict_get eq rm k" if "good k" for k
    by (rule dict_get_perm [OF nfk rprops(1) that rprops(2) mrm])
  have "entry sm' item = entry sm item" if "item \<in> set rm'" for item
  proof -
    from that rprops'(1) have "good (fst item)" by blast
    from get_s [OF this] entry_dep show ?thesis by blast
  qed
  then have same: "extend_all (map (entry sm') rm') = extend_all (map (entry sm) rm')"
    by (intro arg_cong [where f = extend_all] map_cong refl)
  from extend_all_perm [OF ds1 mrm]
  obtain ds1' where "extend_all (map (entry sm) rm') = Inr ds1'" and m1: "mset ds1' = mset ds1"
    by blast
  with same have loop1: "extend_all (map (entry sm') rm') = Inr ds1'" by (simp only:)
  have "extra rm' item = extra rm item" if "item \<in> set sm'" for item
  proof -
    from that sprops'(1) have "good (fst item)" by blast
    from get_r [OF this] extra_dep show ?thesis by blast
  qed
  then have "mset (concat (map (extra rm') sm')) = mset (concat (map (extra rm) sm'))"
    by (intro arg_cong [where f = "\<lambda>xs. mset (concat xs)"] map_cong refl)
  also have "\<dots> = mset (concat (map (extra rm) sm))"
    by (rule mset_concat_map_perm [OF msm])
  finally have m2: "mset (concat (map (extra rm') sm')) = mset (concat (map (extra rm) sm))" .
  have "keyed_compare eq key entry extra ref' stu' = Inr (ds1' @ concat (map (extra rm') sm'))"
    by (simp add: keyed_compare_def rm' sm' loop1)
  moreover have "mset (ds1' @ concat (map (extra rm') sm')) = mset ds"
    using m1 m2 by (simp add: ds)
  ultimately show ?thesis by blast
qed

lemma no_shared_sig_distinct:
  assumes "\<forall>m \<in> set ms. \<exists>k. method_sig m = Inr k" and "no_shared_sig ms"
  shows "distinct (map (\<lambda>m. nf_sig (projr (method_sig m))) ms)"
  using assms
proof (induction ms)
  case Nil
  then show ?case by simp
next
  case (Cons m ms)
  from Cons.prems(1) obtain k where k: "method_sig m = Inr k" by auto
  have "nf_sig k \<noteq> nf_sig (projr (method_sig m'))" if "m' \<in> set ms" for m'
  proof -
    from Cons.prems(1) that obtain k' where k': "method_sig m' = Inr k'" by auto
    from Cons.prems(2) that have "\<not> same_sig m m'" by simp
    with k k' have "\<not> sig_eq k k'" by (simp add: same_sig_def)
    moreover have "good_sig k" "good_sig k'" using k k' method_sig_good by blast+
    ultimately show ?thesis using k' by (simp add: sig_eq_canon)
  qed
  with Cons k show ?case by auto
qed

text \<open>
  C4, as the code has it. When no two methods of the reference have the same signature,
  and no two methods of the candidate, permuting either sequence changes neither whether
  the comparison returns nor the discrepancies it returns: they are the same as a
  multiset, so as a set.
\<close>

theorem keyed_order_independence:
  assumes "mset ref_methods' = mset ref_methods" and "mset stu_methods' = mset stu_methods"
    and "no_shared_sig ref_methods" and "no_shared_sig stu_methods"
    and "compare_methods ref_methods stu_methods path = Inr ds"
  shows "\<exists>ds'. compare_methods ref_methods' stu_methods' path = Inr ds'
     \<and> mset ds' = mset ds \<and> set ds' = set ds"
proof -
  let ?entry = "\<lambda>stu_map. method_entry compare_values stu_map path"
  let ?extra = "\<lambda>ref_map. method_extra ref_map path"
  from assms(5) have res: "keyed_compare sig_eq method_sig ?entry ?extra
      ref_methods stu_methods = Inr ds"
    by (simp add: compare_methods_def compare_methods_keyed)
  then obtain rm sm where rm: "build_dict sig_eq method_sig [] ref_methods = Inr rm"
    and sm: "build_dict sig_eq method_sig [] stu_methods = Inr sm"
    by (auto simp: keyed_compare_def split: sum.splits)
  have dr: "distinct (map (\<lambda>m. nf_sig (projr (method_sig m))) ref_methods)"
    using build_dict_props(3) [OF method_keys rm] assms(3)
    by (intro no_shared_sig_distinct) blast+
  have dst: "distinct (map (\<lambda>m. nf_sig (projr (method_sig m))) stu_methods)"
    using build_dict_props(3) [OF method_keys sm] assms(4)
    by (intro no_shared_sig_distinct) blast+
  have "\<exists>ds'. keyed_compare sig_eq method_sig ?entry ?extra ref_methods' stu_methods' = Inr ds'
      \<and> mset ds' = mset ds"
    by (rule keyed_compare_perm [OF method_keys _ _ assms(1,2) dr dst res])
       (simp_all add: method_entry_def method_extra_def)
  then obtain ds' where "compare_methods ref_methods' stu_methods' path = Inr ds'"
    and "mset ds' = mset ds"
    by (auto simp: compare_methods_def compare_methods_keyed)
  moreover from this(2) have "set ds' = set ds" by (rule mset_eq_setD)
  ultimately show ?thesis by blast
qed


theorem keyed_order_independence_witness:
  "mset [set_int, get_int] = mset [get_int, set_int] \<and> mset [get_long] = mset [get_long]
   \<and> no_shared_sig [get_int, set_int] \<and> no_shared_sig [get_long]
   \<and> compare_methods [get_int, set_int] [get_long] ''Class Foo.methods''
       = Inr [''Class Foo.methods.get().returns - Value mismatch: expected int, got long'',
              ''Class Foo.methods - Missing method: set with params ['' @ [CHR 0x27] @ ''int''
                @ [CHR 0x27] @ '']'']
   \<and> (\<exists>ds'. compare_methods [set_int, get_int] [get_long] ''Class Foo.methods'' = Inr ds'
        \<and> set ds' = {''Class Foo.methods.get().returns - Value mismatch: expected int, got long'',
              ''Class Foo.methods - Missing method: set with params ['' @ [CHR 0x27] @ ''int''
                @ [CHR 0x27] @ '']''})"
proof -
  have perm: "mset [set_int, get_int] = mset [get_int, set_int]" by (simp add: add_mset_commute)
  have d1: "no_shared_sig [get_int, set_int]" by code_simp
  have d2: "no_shared_sig [get_long]" by simp
  have res: "compare_methods [get_int, set_int] [get_long] ''Class Foo.methods''
       = Inr [''Class Foo.methods.get().returns - Value mismatch: expected int, got long'',
              ''Class Foo.methods - Missing method: set with params ['' @ [CHR 0x27] @ ''int''
                @ [CHR 0x27] @ '']'']"
    by code_simp
  from keyed_order_independence [OF perm refl d1 d2 res] perm d1 d2 res show ?thesis
    by auto
qed

text \<open>
  C4 as stated, for all sequences, fails: of two reference methods with the same
  signature the later one replaces the earlier one in the dict, so exchanging them
  changes which of the two is compared with the candidate method.
\<close>

theorem duplicate_signature_counterexample:
  "mset [get_long, get_int] = mset [get_int, get_long]
   \<and> compare_methods [get_int, get_long] [get_long] ''Class Foo.methods'' = Inr []
   \<and> compare_methods [get_long, get_int] [get_long] ''Class Foo.methods''
       = Inr [''Class Foo.methods.get().returns - Value mismatch: expected int, got long'']"
  by (simp add: add_mset_commute) code_simp

section \<open>The two value differs, branch by branch\<close>

lemma compare_values_unfold:
  "compare_values ref_val stu_val path =
     (if type_of ref_val \<noteq> type_of stu_val then type_mismatch ref_val stu_val path
      else if is_dict ref_val then dict_branch compare_values ref_val stu_val path
      else if is_list ref_val then
        list_branch compare_values ref_val stu_val path
          (case positional_loop compare_values ref_val stu_val path of
             Inl e \<Rightarrow> Inl e
           | Inr differences \<Rightarrow>
               Inr ((if length (list_items ref_val) \<noteq> length (list_items stu_val)
                     then [path @ '' - Length mismatch: expected '' @ py_str ref_val
                            @ '' ('' @ show_nat (length (list_items ref_val)) @ '' items), got ''
                            @ py_str stu_val
                            @ '' ('' @ show_nat (length (list_items stu_val)) @ '' items)'']
                     else []) @ differences))
      else scalar_branch ref_val stu_val path)"
  by (subst compare_values.simps)
     (simp add: type_mismatch_def dict_branch_def list_branch_def positional_loop_def
        scalar_branch_def)

lemma compare_values_main_unfold:
  "compare_values_main ref_val stu_val path =
     (if type_of ref_val \<noteq> type_of stu_val then type_mismatch ref_val stu_val path
      else if is_dict ref_val then dict_branch compare_values_main ref_val stu_val path
      else if is_list ref_val then
        list_branch compare_values_main ref_val stu_val path
          (if length (list_items ref_val) \<noteq> length (list_items stu_val)
           then Inr [path @ '' - Length mismatch: expected '' @ py_str ref_val
                      @ '', got '' @ py_str stu_val]
           else positional_loop compare_values_main ref_val stu_val path)
      else scalar_branch ref_val stu_val path)"
  by (subst compare_values_main.simps)
     (simp add: type_mismatch_def dict_branch_def list_branch_def positional_loop_def
        scalar_branch_def)

section \<open>The two differs compared\<close>

lemma agree_on_sym: "agree_on X cv1 cv2 \<Longrightarrow> agree_on X cv2 cv1"
  by (simp add: agree_on_def)

lemma agree_onD:
  "agree_on X cv1 cv2 \<Longrightarrow> m \<in> X \<Longrightarrow> cv1 m m' q = Inr ds \<Longrightarrow> no_length_line ds \<Longrightarrow>
   cv2 m m' q = Inr ds"
  by (simp add: agree_on_def)

lemma no_length_line_append [simp]:
  "no_length_line (xs @ ys) \<longleftrightarrow> no_length_line xs \<and> no_length_line ys"
  by (auto simp: no_length_line_def)

lemma no_length_line_subset: "no_length_line ds \<Longrightarrow> set d \<subseteq> set ds \<Longrightarrow> no_length_line d"
  by (auto simp: no_length_line_def)

lemma extend_all_transfer:
  assumes "extend_all (map f xs) = Inr ds" and "no_length_line ds"
    and "\<And>x d. x \<in> set xs \<Longrightarrow> f x = Inr d \<Longrightarrow> no_length_line d \<Longrightarrow> g x = Inr d"
  shows "extend_all (map g xs) = Inr ds"
proof -
  have "g x = f x" if "x \<in> set xs" for x
  proof -
    from extend_all_member [OF assms(1) that] obtain d where d: "f x = Inr d" "set d \<subseteq> set ds"
      by blast
    from assms(2) d(2) have "no_length_line d" by (rule no_length_line_subset)
    from assms(3) [OF that d(1) this] d(1) show ?thesis by simp
  qed
  then have "extend_all (map g xs) = extend_all (map f xs)"
    by (intro arg_cong [where f = extend_all] map_cong refl)
  with assms(1) show ?thesis by simp
qed

lemma loop_then_extras_transfer:
  assumes "(case extend_all (map f xs) of Inl e \<Rightarrow> Inl e | Inr d \<Rightarrow> Inr (d @ extras)) = Inr ds"
    and "no_length_line ds"
    and "\<And>x d. x \<in> set xs \<Longrightarrow> f x = Inr d \<Longrightarrow> no_length_line d \<Longrightarrow> g x = Inr d"
  shows "(case extend_all (map g xs) of Inl e \<Rightarrow> Inl e | Inr d \<Rightarrow> Inr (d @ extras)) = Inr ds"
proof -
  from assms(1) obtain d1 where d1: "extend_all (map f xs) = Inr d1" and ds: "ds = d1 @ extras"
    by (auto split: sum.splits)
  from assms(2) ds have "no_length_line d1" by simp
  from extend_all_transfer [OF d1 this assms(3)] ds show ?thesis by simp
qed

lemma dict_branch_transfer:
  assumes "agree_on (snd ` set (dict_items r)) cv1 cv2"
    and "dict_branch cv1 r s p = Inr ds" and "no_length_line ds"
  shows "dict_branch cv2 r s p = Inr ds"
  using assms(2) unfolding dict_branch_def
proof (rule loop_then_extras_transfer [OF _ assms(3)])
  fix item d
  assume item: "item \<in> set (dict_items r)" and d: "no_length_line d"
    and "(case map_of (dict_items s) (fst item) of None \<Rightarrow> Inr (missing_key p (fst item))
         | Some stu_item \<Rightarrow> cv1 (snd item) stu_item (p @ ''.'' @ fst item)) = Inr d"
  then show "(case map_of (dict_items s) (fst item) of None \<Rightarrow> Inr (missing_key p (fst item))
         | Some stu_item \<Rightarrow> cv2 (snd item) stu_item (p @ ''.'' @ fst item)) = Inr d"
    using agree_onD [OF assms(1), of "snd item"] by (auto split: option.splits)
qed

lemma positional_loop_transfer:
  assumes "agree_on (set (list_items r)) cv1 cv2"
    and "positional_loop cv1 r s p = Inr ds" and "no_length_line ds"
  shows "positional_loop cv2 r s p = Inr ds"
  using assms(2) unfolding positional_loop_def
proof (rule extend_all_transfer [OF _ assms(3)])
  fix x d
  assume x: "x \<in> set (enumerate 0 (zip (list_items r) (list_items s)))"
    and d: "no_length_line d"
    and 1: "(case x of (i, ref_item, stu_item) \<Rightarrow> cv1 ref_item stu_item (p @ ''['' @ show_nat i @ '']''))
        = Inr d"
  obtain i a b where xe: "x = (i, a, b)" by (cases x) auto
  with x have "a \<in> set (list_items r)"
    by (auto dest!: enumerate_item_in set_zip_leftD)
  from agree_onD [OF assms(1) this] 1 d xe
  show "(case x of (i, ref_item, stu_item) \<Rightarrow> cv2 ref_item stu_item (p @ ''['' @ show_nat i @ '']''))
        = Inr d"
    by simp
qed

lemma keyed_compare_transfer:
  assumes "keyed_compare eq key entry1 extra r s = Inr ds" and "no_length_line ds"
    and "\<And>rm sm item d. build_dict eq key [] r = Inr rm \<Longrightarrow> build_dict eq key [] s = Inr sm \<Longrightarrow>
          item \<in> set rm \<Longrightarrow> entry1 sm item = Inr d \<Longrightarrow> no_length_line d \<Longrightarrow>
          entry2 sm item = Inr d"
  shows "keyed_compare eq key entry2 extra r s = Inr ds"
proof -
  from assms(1) obtain rm sm where rm: "build_dict eq key [] r = Inr rm"
    and sm: "build_dict eq key [] s = Inr sm"
    and loop: "(case extend_all (map (entry1 sm) rm) of Inl e \<Rightarrow> Inl e
        | Inr d \<Rightarrow> Inr (d @ concat (map (extra rm) sm))) = Inr ds"
    by (auto simp: keyed_compare_def split: sum.splits)
  have "(case extend_all (map (entry2 sm) rm) of Inl e \<Rightarrow> Inl e
        | Inr d \<Rightarrow> Inr (d @ concat (map (extra rm) sm))) = Inr ds"
    by (rule loop_then_extras_transfer [OF loop assms(2)]) (rule assms(3) [OF rm sm])
  then show ?thesis by (simp add: keyed_compare_def rm sm)
qed

lemma compare_methods_of_transfer:
  assumes "agree_on (set r) cv1 cv2"
    and "compare_methods_of cv1 r s p = Inr ds" and "no_length_line ds"
  shows "compare_methods_of cv2 r s p = Inr ds"
  using assms(2) unfolding compare_methods_keyed
proof (rule keyed_compare_transfer [OF _ assms(3)])
  fix rm sm item d
  assume "build_dict sig_eq method_sig [] r = Inr rm" "item \<in> set rm"
  then have "snd item \<in> set r" by (rule build_dict_value_in)
  moreover assume "method_entry cv1 sm p item = Inr d" "no_length_line d"
  ultimately show "method_entry cv2 sm p item = Inr d"
    using agree_onD [OF assms(1), of "snd item"]
    by (auto simp: method_entry_def split: option.splits sum.splits)
qed

lemma compare_fields_of_transfer:
  assumes "agree_on (set r) cv1 cv2"
    and "compare_fields_of cv1 r s p = Inr ds" and "no_length_line ds"
  shows "compare_fields_of cv2 r s p = Inr ds"
  using assms(2) unfolding compare_fields_keyed
proof (rule keyed_compare_transfer [OF _ assms(3)])
  fix rm sm item d
  assume "build_dict py_eq field_key [] r = Inr rm" "item \<in> set rm"
  then have "snd item \<in> set r" by (rule build_dict_value_in)
  moreover assume "field_entry cv1 sm p item = Inr d" "no_length_line d"
  ultimately show "field_entry cv2 sm p item = Inr d"
    using agree_onD [OF assms(1), of "snd item"]
    by (auto simp: field_entry_def split: option.splits sum.splits)
qed

lemma compare_constructors_of_transfer:
  assumes "agree_on (set r) cv1 cv2"
    and "compare_constructors_of cv1 r s p = Inr ds" and "no_length_line ds"
  shows "compare_constructors_of cv2 r s p = Inr ds"
  using assms(2) unfolding compare_constructors_keyed
proof (rule keyed_compare_transfer [OF _ assms(3)])
  fix rm sm item d
  assume "build_dict (list_all2 py_eq) ctor_key [] r = Inr rm" "item \<in> set rm"
  then have "snd item \<in> set r" by (rule build_dict_value_in)
  moreover assume "ctor_entry cv1 sm p item = Inr d" "no_length_line d"
  ultimately show "ctor_entry cv2 sm p item = Inr d"
    using agree_onD [OF assms(1), of "snd item"]
    by (auto simp: ctor_entry_def split: option.splits sum.splits)
qed

lemma list_branch_transfer:
  assumes "agree_on (set (list_items r)) cv1 cv2"
    and "list_branch cv1 r s p pos1 = Inr ds" and "no_length_line ds"
    and "pos1 = Inr ds \<Longrightarrow> pos2 = Inr ds"
  shows "list_branch cv2 r s p pos2 = Inr ds"
  using assms(2,4) compare_methods_of_transfer [OF assms(1) _ assms(3)]
    compare_fields_of_transfer [OF assms(1) _ assms(3)]
    compare_constructors_of_transfer [OF assms(1) _ assms(3)]
  by (auto simp: list_branch_def split: if_splits)


lemma agree_on_mono: "agree_on X cv1 cv2 \<Longrightarrow> Y \<subseteq> X \<Longrightarrow> agree_on Y cv1 cv2"
  by (auto simp: agree_on_def)

lemma length_line_intro: "length_line (p @ '' - Length mismatch: expected '' @ rest)"
  unfolding length_line_def sublist_def by blast

lemma no_length_line_Cons: "no_length_line (d # ds) \<Longrightarrow> \<not> length_line d"
  by (simp add: no_length_line_def)

lemma differs_agree:
  "no_length_line ds \<Longrightarrow>
   (compare_values_main r s p = Inr ds \<longleftrightarrow> compare_values r s p = Inr ds)"
proof (induction r arbitrary: s p ds rule: measure_induct_rule [of size])
  case (less r)
  from less.IH have IH: "agree_on {m. size m < size r} compare_values_main compare_values"
    by (simp add: agree_on_def)
  have kd: "agree_on (snd ` set (dict_items r)) compare_values_main compare_values"
    by (rule agree_on_mono [OF IH]) (auto intro: size_dict_item)
  have kl: "agree_on (set (list_items r)) compare_values_main compare_values"
    by (rule agree_on_mono [OF IH]) (auto intro: size_list_item)
  note clean = less.prems
  define posE where "posE = (if length (list_items r) \<noteq> length (list_items s)
           then Inr [p @ '' - Length mismatch: expected '' @ py_str r @ '', got '' @ py_str s]
           else positional_loop compare_values_main r s p)"
  define posS where "posS = (case positional_loop compare_values r s p of
             Inl e \<Rightarrow> Inl e
           | Inr differences \<Rightarrow>
               Inr ((if length (list_items r) \<noteq> length (list_items s)
                     then [p @ '' - Length mismatch: expected '' @ py_str r
                            @ '' ('' @ show_nat (length (list_items r)) @ '' items), got ''
                            @ py_str s
                            @ '' ('' @ show_nat (length (list_items s)) @ '' items)'']
                     else []) @ differences))"
  have pos1: "posS = Inr ds" if "posE = Inr ds"
  proof (cases "length (list_items r) = length (list_items s)")
    case True
    with that have "positional_loop compare_values_main r s p = Inr ds" by (simp add: posE_def)
    from positional_loop_transfer [OF kl this clean] True show ?thesis by (simp add: posS_def)
  next
    case False
    with that clean length_line_intro show ?thesis
      by (auto simp: posE_def dest: no_length_line_Cons)
  qed
  have pos2: "posE = Inr ds" if "posS = Inr ds"
  proof (cases "length (list_items r) = length (list_items s)")
    case True
    with that have "positional_loop compare_values r s p = Inr ds"
      by (auto simp: posS_def split: sum.splits)
    from positional_loop_transfer [OF agree_on_sym [OF kl] this clean] True
    show ?thesis by (simp add: posE_def)
  next
    case False
    with that clean length_line_intro show ?thesis
      by (auto simp: posS_def split: sum.splits dest: no_length_line_Cons)
  qed
  show ?case
  proof (cases "type_of r \<noteq> type_of s")
    case True
    then show ?thesis
      by (simp add: compare_values_unfold [of r s p] compare_values_main_unfold [of r s p])
  next
    case same: False
    show ?thesis
    proof (cases "is_dict r")
      case True
      with same have "compare_values_main r s p = dict_branch compare_values_main r s p"
        "compare_values r s p = dict_branch compare_values r s p"
        by (simp_all add: compare_values_unfold [of r s p] compare_values_main_unfold [of r s p])
      with dict_branch_transfer [OF kd _ clean, of s p]
        dict_branch_transfer [OF agree_on_sym [OF kd] _ clean, of s p]
      show ?thesis by auto
    next
      case nodict: False
      show ?thesis
      proof (cases "is_list r")
        case True
        with same nodict
        have "compare_values_main r s p = list_branch compare_values_main r s p posE"
          "compare_values r s p = list_branch compare_values r s p posS"
          by (simp_all add: compare_values_unfold [of r s p]
              compare_values_main_unfold [of r s p] posE_def posS_def)
        moreover have "list_branch compare_values r s p posS = Inr ds"
          if "list_branch compare_values_main r s p posE = Inr ds"
          using kl that clean pos1 by (rule list_branch_transfer)
        moreover have "list_branch compare_values_main r s p posE = Inr ds"
          if "list_branch compare_values r s p posS = Inr ds"
          using agree_on_sym [OF kl] that clean pos2 by (rule list_branch_transfer)
        ultimately show ?thesis by auto
      next
        case False
        with same nodict show ?thesis
          by (simp add: compare_values_unfold [of r s p] compare_values_main_unfold [of r s p])
      qed
    qed
  qed
qed

lemma compare_uml_files_of_transfer:
  assumes "agree_on UNIV cv1 cv2"
    and "compare_uml_files_of cv1 a b = Inr ds" and "no_length_line ds"
  shows "compare_uml_files_of cv2 a b = Inr ds"
proof -
  from assms(2) obtain rd sd where rd: "corpus_dict a = Inr rd" and sd: "corpus_dict b = Inr sd"
    and loop: "(case extend_all (map (class_entry cv1 sd) rd) of Inl e \<Rightarrow> Inl e
        | Inr d \<Rightarrow> Inr (d @ concat (map (class_extra rd) sd))) = Inr ds"
    by (auto simp: compare_uml_files_of_def split: sum.splits)
  have "(case extend_all (map (class_entry cv2 sd) rd) of Inl e \<Rightarrow> Inl e
        | Inr d \<Rightarrow> Inr (d @ concat (map (class_extra rd) sd))) = Inr ds"
  proof (rule loop_then_extras_transfer [OF loop assms(3)])
    fix item d
    assume "class_entry cv1 sd item = Inr d" "no_length_line d"
    then show "class_entry cv2 sd item = Inr d"
      using agree_onD [OF assms(1), of "snd item"]
      by (auto simp: class_entry_def split: option.splits)
  qed
  then show ?thesis by (simp add: compare_uml_files_of_def rd sd)
qed

text \<open>
  C9, as the code has it. The two differs return the same discrepancy sequences as long
  as no Length mismatch is reported: a sequence without a Length mismatch line is the
  result of one differ iff it is the result of the other, for values and for corpora.
\<close>

theorem differs_agree_without_length_mismatch:
  assumes "no_length_line ds"
  shows "(compare_values_main ref_val stu_val path = Inr ds
            \<longleftrightarrow> compare_values ref_val stu_val path = Inr ds)
     \<and> (compare_uml_files_main ref_input student_input = Inr ds
            \<longleftrightarrow> compare_uml_files ref_input student_input = Inr ds)"
proof -
  have a: "agree_on UNIV compare_values_main compare_values"
    by (simp add: agree_on_def differs_agree)
  from compare_uml_files_of_transfer [OF a _ assms]
    compare_uml_files_of_transfer [OF agree_on_sym [OF a] _ assms]
  have "compare_uml_files_main ref_input student_input = Inr ds
            \<longleftrightarrow> compare_uml_files ref_input student_input = Inr ds"
    unfolding compare_uml_files_main_def compare_uml_files_def by blast
  with differs_agree [OF assms] show ?thesis by blast
qed


theorem differs_agree_without_length_mismatch_witness:
  "no_length_line [''Class Foo.modifiers[1] - Value mismatch: expected static, got final'']
   \<and> compare_values_main (JList [JStr ''public'', JStr ''static''])
         (JList [JStr ''public'', JStr ''final'']) ''Class Foo.modifiers''
       = Inr [''Class Foo.modifiers[1] - Value mismatch: expected static, got final'']
   \<and> compare_values (JList [JStr ''public'', JStr ''static''])
         (JList [JStr ''public'', JStr ''final'']) ''Class Foo.modifiers''
       = Inr [''Class Foo.modifiers[1] - Value mismatch: expected static, got final'']"
proof -
  have clean: "no_length_line
      [''Class Foo.modifiers[1] - Value mismatch: expected static, got final'']"
    by code_simp
  have main: "compare_values_main (JList [JStr ''public'', JStr ''static''])
         (JList [JStr ''public'', JStr ''final'']) ''Class Foo.modifiers''
       = Inr [''Class Foo.modifiers[1] - Value mismatch: expected static, got final'']"
    by code_simp
  with differs_agree_without_length_mismatch [OF clean] clean show ?thesis by blast
qed

text \<open>
  C9 as stated, for every pair of inputs, fails: on two positional lists of different
  lengths the two differs word the Length mismatch differently.
\<close>

theorem differs_disagree_counterexample:
  "compare_values_main (JList [JStr ''public'']) (JList []) ''Class Foo.modifiers''
     = Inr [''Class Foo.modifiers - Length mismatch: expected ['' @ [CHR 0x27] @ ''public''
             @ [CHR 0x27] @ ''], got []'']
   \<and> compare_values (JList [JStr ''public'']) (JList []) ''Class Foo.modifiers''
     = Inr [''Class Foo.modifiers - Length mismatch: expected ['' @ [CHR 0x27] @ ''public''
             @ [CHR 0x27] @ ''] (1 items), got [] (0 items)'']
   \<and> compare_values_main (JList [JStr ''public'']) (JList []) ''Class Foo.modifiers''
     \<noteq> compare_values (JList [JStr ''public'']) (JList []) ''Class Foo.modifiers''"
  by code_simp

section \<open>Paths and the strategies they select\<close>

lemma endswith_key:
  assumes "CHR ''.'' \<notin> set w"
  shows "endswith (path @ ''.'' @ key) (''.'' @ w) \<longleftrightarrow> endswith (''.'' @ key) (''.'' @ w)"
proof
  assume "endswith (''.'' @ key) (''.'' @ w)"
  then show "endswith (path @ ''.'' @ key) (''.'' @ w)"
    unfolding endswith_def by (rule suffix_appendI)
next
  assume "endswith (path @ ''.'' @ key) (''.'' @ w)"
  then obtain zs where zs: "path @ (''.'' @ key) = zs @ (''.'' @ w)"
    unfolding endswith_def suffix_def by auto
  then consider us where "path = zs @ us" "us @ (''.'' @ key) = ''.'' @ w"
    | us where "path @ us = zs" "''.'' @ key = us @ (''.'' @ w)"
    unfolding append_eq_append_conv2 by blast
  then show "endswith (''.'' @ key) (''.'' @ w)"
  proof cases
    case 1
    show ?thesis
    proof (cases us)
      case Nil
      with 1 show ?thesis by (simp add: endswith_def)
    next
      case (Cons c us')
      with 1(2) have "w = us' @ ''.'' @ key" by simp
      with assms show ?thesis by simp
    qed
  next
    case 2
    then show ?thesis unfolding endswith_def suffix_def by blast
  qed
qed

lemma sniffed_key: "sniffed (path @ ''.'' @ key) \<longleftrightarrow> sniffed (''.'' @ key)"
proof -
  have "endswith (path @ ''.'' @ key) (''.'' @ w) \<longleftrightarrow> endswith (''.'' @ key) (''.'' @ w)"
    if "w \<in> {''methods'', ''fields'', ''constructors'', ''extends'', ''implements''}" for w
    using that by (intro endswith_key) auto
  from this [of "''methods''"] this [of "''fields''"] this [of "''constructors''"]
    this [of "''extends''"] this [of "''implements''"]
  show ?thesis by (simp add: sniffed_def)
qed

lemma neutral_key_path: "neutral_key key \<Longrightarrow> \<not> sniffed (path @ ''.'' @ key)"
  unfolding neutral_key_def using sniffed_key [of path key] by blast

lemma endswith_last: "endswith (xs @ [c]) (ys @ [d]) \<Longrightarrow> c = d"
  by (auto simp: endswith_def suffix_def)

lemma not_sniffed_last:
  assumes "c \<noteq> CHR ''s''"
  shows "\<not> sniffed (xs @ [c])"
proof -
  have "\<not> endswith (xs @ [c]) (w @ ''s'')" for w
    using endswith_last [of xs c w "CHR ''s''"] assms by auto
  from this [of "''.method''"] this [of "''.field''"] this [of "''.constructor''"]
    this [of "''.extend''"] this [of "''.implement''"]
  show ?thesis by (simp add: sniffed_def)
qed

lemma not_sniffed_index: "\<not> sniffed (path @ ''['' @ n @ '']'')"
  using not_sniffed_last [of "CHR '']''" "path @ ''['' @ n"] by simp

lemma not_sniffed_call: "\<not> sniffed (path @ x @ ''('' @ params @ '')'')"
  using not_sniffed_last [of "CHR '')''" "path @ x @ ''('' @ params"] by simp


section \<open>Comparisons that return\<close>

lemma plain_dict_item:
  "plain r \<Longrightarrow> item \<in> set (dict_items r) \<Longrightarrow> neutral_key (fst item) \<and> plain (snd item)"
  by (cases r) auto

lemma plain_list_item: "plain r \<Longrightarrow> x \<in> set (list_items r) \<Longrightarrow> plain x"
  by (cases r) auto

lemma plain_lookup: "plain s \<Longrightarrow> map_of (dict_items s) k = Some v \<Longrightarrow> plain v"
  using plain_dict_item [of s "(k, v)"] by (auto dest: map_of_SomeD)

lemma dict_branch_total:
  assumes "\<And>item stu_item. item \<in> set (dict_items r) \<Longrightarrow>
      map_of (dict_items s) (fst item) = Some stu_item \<Longrightarrow>
      \<exists>d. cv (snd item) stu_item (p @ ''.'' @ fst item) = Inr d"
  shows "\<exists>ds. dict_branch cv r s p = Inr ds"
proof -
  have "\<exists>ds1. extend_all (map (\<lambda>item.
             case map_of (dict_items s) (fst item) of
               None \<Rightarrow> Inr (missing_key p (fst item))
             | Some stu_item \<Rightarrow> cv (snd item) stu_item (p @ ''.'' @ fst item))
           (dict_items r)) = Inr ds1"
    by (rule extend_all_total) (use assms in \<open>auto split: option.splits\<close>)
  then show ?thesis by (auto simp: dict_branch_def)
qed

lemma positional_loop_total:
  assumes "\<And>i a b. a \<in> set (list_items r) \<Longrightarrow> b \<in> set (list_items s) \<Longrightarrow>
      \<exists>d. cv a b (p @ ''['' @ show_nat i @ '']'') = Inr d"
  shows "\<exists>ds. positional_loop cv r s p = Inr ds"
  unfolding positional_loop_def
proof (rule extend_all_total)
  fix x assume "x \<in> set (enumerate 0 (zip (list_items r) (list_items s)))"
  moreover obtain i a b where x: "x = (i, a, b)" by (cases x) auto
  ultimately have "a \<in> set (list_items r)" "b \<in> set (list_items s)"
    by (auto dest!: enumerate_item_in dest: set_zip_leftD set_zip_rightD)
  from assms [OF this, of i] x
  show "\<exists>d. (case x of (i, ref_item, stu_item) \<Rightarrow>
      cv ref_item stu_item (p @ ''['' @ show_nat i @ '']'')) = Inr d"
    by simp
qed

lemma list_branch_positional: "\<not> sniffed p \<Longrightarrow> list_branch cv r s p pos = pos"
  by (simp add: list_branch_def sniffed_def)

lemma plain_total:
  "plain r \<Longrightarrow> plain s \<Longrightarrow> (is_list r \<longrightarrow> \<not> sniffed p) \<Longrightarrow>
   \<exists>ds. compare_values r s p = Inr ds"
proof (induction r arbitrary: s p rule: measure_induct_rule [of size])
  case (less r)
  show ?case
  proof (cases "type_of r \<noteq> type_of s")
    case True
    then show ?thesis by (simp add: compare_values_unfold [of r s p] type_mismatch_def)
  next
    case same: False
    show ?thesis
    proof (cases "is_dict r")
      case True
      have "\<exists>ds. dict_branch compare_values r s p = Inr ds"
      proof (rule dict_branch_total)
        fix item stu_item
        assume item: "item \<in> set (dict_items r)"
          and look: "map_of (dict_items s) (fst item) = Some stu_item"
        from plain_dict_item [OF less.prems(1) item]
        have n: "neutral_key (fst item)" and pl: "plain (snd item)" by simp_all
        from plain_lookup [OF less.prems(2) look] have pl': "plain stu_item" .
        from size_dict_item [OF item] pl pl' neutral_key_path [OF n]
        show "\<exists>d. compare_values (snd item) stu_item (p @ ''.'' @ fst item) = Inr d"
          by (intro less.IH) auto
      qed
      with same True show ?thesis by (simp add: compare_values_unfold [of r s p])
    next
      case nodict: False
      show ?thesis
      proof (cases "is_list r")
        case True
        with less.prems(3) have ns: "\<not> sniffed p" by simp
        have "\<exists>ds. positional_loop compare_values r s p = Inr ds"
        proof (rule positional_loop_total)
          fix i a b assume a: "a \<in> set (list_items r)" and b: "b \<in> set (list_items s)"
          from size_list_item [OF a] plain_list_item [OF less.prems(1) a]
            plain_list_item [OF less.prems(2) b] not_sniffed_index [of p "show_nat i"]
          show "\<exists>d. compare_values a b (p @ ''['' @ show_nat i @ '']'') = Inr d"
            by (intro less.IH) auto
        qed
        with same nodict True ns show ?thesis
          by (auto simp: compare_values_unfold [of r s p] list_branch_positional)
      next
        case False
        with same nodict show ?thesis
          by (simp add: compare_values_unfold [of r s p] scalar_branch_def)
      qed
    qed
  qed
qed

section \<open>Class descriptions\<close>

lemma build_dict_total:
  "\<forall>x \<in> set xs. \<exists>k. key x = Inr k \<Longrightarrow> \<exists>m. build_dict eq key d xs = Inr m"
  by (induction xs arbitrary: d) auto

lemma build_dict_keys_aux:
  "build_dict eq key d xs = Inr m \<Longrightarrow> item \<in> set m \<Longrightarrow>
   fst item \<in> fst ` set d \<or> (\<exists>x \<in> set xs. key x = Inr (fst item))"
proof (induction xs arbitrary: d)
  case Nil
  then show ?case by auto
next
  case (Cons x xs)
  from Cons.prems(1) obtain k where k: "key x = Inr k"
    and rest: "build_dict eq key (dict_set eq d k x) xs = Inr m"
    by (auto split: sum.splits)
  from Cons.IH [OF rest Cons.prems(2)]
  consider e where "e \<in> set (dict_set eq d k x)" "fst e = fst item"
    | "\<exists>x \<in> set xs. key x = Inr (fst item)" by auto
  then show ?case
  proof cases
    case 1
    from dict_set_entries [OF 1(1)]
    consider "e \<in> set d" | "e = (k, x)" | e0 where "e0 \<in> set d" "e = (fst e0, x)"
      by blast
    then show ?thesis
    proof cases
      case 1
      with \<open>fst e = fst item\<close> have "fst item \<in> fst ` set d" by (metis imageI)
      then show ?thesis ..
    next
      case 2
      with \<open>fst e = fst item\<close> k have "key x = Inr (fst item)" by simp
      then show ?thesis by simp
    next
      case 3
      with \<open>fst e = fst item\<close> have "fst item \<in> fst ` set d" by (metis fst_conv imageI)
      then show ?thesis ..
    qed
  next
    case 2
    then show ?thesis by auto
  qed
qed

lemma build_dict_keys:
  "build_dict eq key [] xs = Inr m \<Longrightarrow> item \<in> set m \<Longrightarrow> \<exists>x \<in> set xs. key x = Inr (fst item)"
  using build_dict_keys_aux [of eq key "[]" xs m item] by simp

lemma keyed_compare_total:
  assumes "\<forall>x \<in> set r. \<exists>k. key x = Inr k" and "\<forall>x \<in> set s. \<exists>k. key x = Inr k"
    and "\<And>rm sm item. build_dict eq key [] r = Inr rm \<Longrightarrow> build_dict eq key [] s = Inr sm \<Longrightarrow>
          item \<in> set rm \<Longrightarrow> \<exists>d. entry sm item = Inr d"
  shows "\<exists>ds. keyed_compare eq key entry extra r s = Inr ds"
proof -
  from build_dict_total [OF assms(1)] obtain rm where rm: "build_dict eq key [] r = Inr rm"
    by blast
  from build_dict_total [OF assms(2)] obtain sm where sm: "build_dict eq key [] s = Inr sm"
    by blast
  have "\<exists>ds1. extend_all (map (entry sm) rm) = Inr ds1"
    by (rule extend_all_total) (rule assms(3) [OF rm sm])
  then show ?thesis by (auto simp: keyed_compare_def rm sm)
qed

lemma string_listD: "string_list v \<Longrightarrow> \<exists>ss. v = JList (map JStr ss)"
  using strings_are_JStr [of "list_items v"]
  by (cases v) (auto simp: string_list_def is_list_def)

lemma hashable_strings: "list_all hashable (map JStr ss)"
  by (induction ss) (simp_all add: hashable_def is_list_def is_dict_def)

lemma is_str_strings: "list_all is_str (map JStr ss)"
  by (induction ss) (simp_all add: is_str_def)

lemma is_strD: "is_str v \<Longrightarrow> \<exists>s. v = JStr s"
  by (cases v) (auto simp: is_str_def)

lemma method_ok_sig:
  assumes "method_ok m"
  shows "\<exists>n ss. method_sig m = Inr (JStr n, map JStr ss)"
proof -
  from assms obtain kvs where m: "m = JDict kvs" by (cases m) (auto simp: method_ok_def is_dict_def)
  from assms m obtain n where n: "py_get m ''name'' (JStr []) = Inr (JStr n)"
    by (auto simp: method_ok_def attr_ok_def py_get_def split: option.splits dest: is_strD)
  from assms m obtain ss where ss: "py_get m ''params'' (JList []) = Inr (JList (map JStr ss))"
    by (cases "map_of kvs ''params''")
       (auto simp: method_ok_def attr_ok_def py_get_def dest: string_listD)
  have "method_sig m = Inr (JStr n, map JStr ss)"
    using hashable_strings [of ss]
    by (simp add: method_sig_def n ss py_tuple_def hashable_def is_list_def is_dict_def)
  then show ?thesis by blast
qed

lemma ctor_ok_key:
  assumes "ctor_ok c"
  shows "\<exists>ss. ctor_key c = Inr (map JStr ss)"
proof -
  from assms obtain kvs where c: "c = JDict kvs" by (cases c) (auto simp: ctor_ok_def is_dict_def)
  from assms c obtain ss where ss: "py_get c ''params'' (JList []) = Inr (JList (map JStr ss))"
    by (cases "map_of kvs ''params''")
       (auto simp: ctor_ok_def attr_ok_def py_get_def dest: string_listD)
  have "ctor_key c = Inr (map JStr ss)"
    using hashable_strings [of ss] by (simp add: ctor_key_def ss py_tuple_def)
  then show ?thesis by blast
qed

lemma field_ok_key:
  assumes "field_ok f"
  shows "\<exists>n. field_key f = Inr (JStr n)"
proof -
  from assms obtain kvs where f: "f = JDict kvs" by (cases f) (auto simp: field_ok_def is_dict_def)
  from assms f obtain n where n: "py_get f ''name'' (JStr []) = Inr (JStr n)"
    by (auto simp: field_ok_def attr_ok_def py_get_def split: option.splits dest: is_strD)
  then have "field_key f = Inr (JStr n)"
    by (simp add: field_key_def hashable_def is_list_def is_dict_def)
  then show ?thesis by blast
qed

lemma py_join_strings: "\<exists>j. py_join sep (map JStr ss) = Inr j"
  by (simp add: py_join_def is_str_strings)


lemma dict_not_list: "is_dict v \<Longrightarrow> \<not> is_list v"
  by (simp add: is_dict_def is_list_def)

lemma methods_total:
  assumes "list_all method_ok r" and "list_all method_ok s"
  shows "\<exists>ds. compare_methods_of compare_values r s p = Inr ds"
  unfolding compare_methods_keyed
proof (rule keyed_compare_total)
  show "\<forall>x \<in> set r. \<exists>k. method_sig x = Inr k"
    using assms(1) method_ok_sig by (fastforce simp: list_all_iff)
  show "\<forall>x \<in> set s. \<exists>k. method_sig x = Inr k"
    using assms(2) method_ok_sig by (fastforce simp: list_all_iff)
next
  fix rm sm item
  assume rm: "build_dict sig_eq method_sig [] r = Inr rm"
    and sm: "build_dict sig_eq method_sig [] s = Inr sm" and item: "item \<in> set rm"
  from build_dict_keys [OF rm item] obtain x where "x \<in> set r" "method_sig x = Inr (fst item)"
    by blast
  with assms(1) method_ok_sig [of x] obtain n ss where sig: "fst item = (JStr n, map JStr ss)"
    by (auto simp: list_all_iff)
  from build_dict_value_in [OF rm item] assms(1) have ok: "method_ok (snd item)"
    by (simp add: list_all_iff)
  show "\<exists>d. method_entry compare_values sm p item = Inr d"
  proof (cases "dict_get sig_eq sm (fst item)")
    case None
    then show ?thesis by (simp add: method_entry_def)
  next
    case (Some m')
    from dict_get_built_in [OF sm Some] assms(2) have ok': "method_ok m'"
      by (simp add: list_all_iff)
    from py_join_strings [of "'',''" ss] obtain j where j: "py_join '','' (map JStr ss) = Inr j"
      by blast
    from ok ok' have "\<exists>d. compare_values (snd item) m'
        (p @ ''.'' @ py_str (fst (fst item)) @ ''('' @ j @ '')'') = Inr d"
      by (intro plain_total) (auto simp: method_ok_def dest: dict_not_list)
    with Some j sig show ?thesis by (simp add: method_entry_def)
  qed
qed

lemma constructors_total:
  assumes "list_all ctor_ok r" and "list_all ctor_ok s"
  shows "\<exists>ds. compare_constructors_of compare_values r s p = Inr ds"
  unfolding compare_constructors_keyed
proof (rule keyed_compare_total)
  show "\<forall>x \<in> set r. \<exists>k. ctor_key x = Inr k"
    using assms(1) ctor_ok_key by (fastforce simp: list_all_iff)
  show "\<forall>x \<in> set s. \<exists>k. ctor_key x = Inr k"
    using assms(2) ctor_ok_key by (fastforce simp: list_all_iff)
next
  fix rm sm item
  assume rm: "build_dict (list_all2 py_eq) ctor_key [] r = Inr rm"
    and sm: "build_dict (list_all2 py_eq) ctor_key [] s = Inr sm" and item: "item \<in> set rm"
  from build_dict_keys [OF rm item] obtain x where "x \<in> set r" "ctor_key x = Inr (fst item)"
    by blast
  with assms(1) ctor_ok_key [of x] obtain ss where key: "fst item = map JStr ss"
    by (auto simp: list_all_iff)
  from build_dict_value_in [OF rm item] assms(1) have ok: "ctor_ok (snd item)"
    by (simp add: list_all_iff)
  show "\<exists>d. ctor_entry compare_values sm p item = Inr d"
  proof (cases "dict_get (list_all2 py_eq) sm (fst item)")
    case None
    then show ?thesis by (simp add: ctor_entry_def)
  next
    case (Some c')
    from dict_get_built_in [OF sm Some] assms(2) have ok': "ctor_ok c'"
      by (simp add: list_all_iff)
    from py_join_strings [of "'',''" ss] obtain j where j: "py_join '','' (map JStr ss) = Inr j"
      by blast
    from ok ok' have "\<exists>d. compare_values (snd item) c'
        (p @ ''.constructor('' @ j @ '')'') = Inr d"
      by (intro plain_total) (auto simp: ctor_ok_def dest: dict_not_list)
    with Some j key show ?thesis by (simp add: ctor_entry_def)
  qed
qed

lemma fields_total:
  assumes "list_all field_ok r" and "list_all field_ok s"
  shows "\<exists>ds. compare_fields_of compare_values r s p = Inr ds"
  unfolding compare_fields_keyed
proof (rule keyed_compare_total)
  show "\<forall>x \<in> set r. \<exists>k. field_key x = Inr k"
    using assms(1) field_ok_key by (fastforce simp: list_all_iff)
  show "\<forall>x \<in> set s. \<exists>k. field_key x = Inr k"
    using assms(2) field_ok_key by (fastforce simp: list_all_iff)
next
  fix rm sm item
  assume rm: "build_dict py_eq field_key [] r = Inr rm"
    and sm: "build_dict py_eq field_key [] s = Inr sm" and item: "item \<in> set rm"
  from build_dict_value_in [OF rm item] assms(1) have ok: "field_ok (snd item)"
    by (simp add: list_all_iff)
  show "\<exists>d. field_entry compare_values sm p item = Inr d"
  proof (cases "dict_get py_eq sm (fst item)")
    case None
    then show ?thesis by (simp add: field_entry_def)
  next
    case (Some f')
    from dict_get_built_in [OF sm Some] assms(2) have ok': "field_ok f'"
      by (simp add: list_all_iff)
    from ok ok' have "\<exists>d. compare_values (snd item) f' (p @ ''.'' @ py_str (fst item)) = Inr d"
      by (intro plain_total) (auto simp: field_ok_def dest: dict_not_list)
    with Some show ?thesis by (simp add: field_entry_def)
  qed
qed

lemma sorted_total:
  assumes "string_list r" and "string_list s"
  shows "\<exists>ds. compare_sorted (list_items r) (list_items s) p = Inr ds"
proof -
  from assms obtain rs ss where "r = JList (map JStr rs)" "s = JList (map JStr ss)"
    using string_listD by blast
  then show ?thesis by (simp add: compare_sorted_def py_sorted_strings)
qed


lemma endswith_key_tests:
  "endswith (p @ ''.'' @ key) ''.methods'' = endswith (''.'' @ key) ''.methods''"
  "endswith (p @ ''.'' @ key) ''.fields'' = endswith (''.'' @ key) ''.fields''"
  "endswith (p @ ''.'' @ key) ''.constructors'' = endswith (''.'' @ key) ''.constructors''"
  "endswith (p @ ''.'' @ key) ''.extends'' = endswith (''.'' @ key) ''.extends''"
  "endswith (p @ ''.'' @ key) ''.implements'' = endswith (''.'' @ key) ''.implements''"
  using endswith_key [of "''methods''" p key] endswith_key [of "''fields''" p key]
    endswith_key [of "''constructors''" p key] endswith_key [of "''extends''" p key]
    endswith_key [of "''implements''" p key]
  by simp_all

lemma list_branch_at_methods:
  "key = ''methods'' \<Longrightarrow> list_branch cv r s (p @ ''.'' @ key) pos
     = compare_methods_of cv (list_items r) (list_items s) (p @ ''.'' @ key)"
  unfolding list_branch_def endswith_key_tests by (simp add: endswith_def)

lemma list_branch_at_fields:
  "key = ''fields'' \<Longrightarrow> list_branch cv r s (p @ ''.'' @ key) pos
     = compare_fields_of cv (list_items r) (list_items s) (p @ ''.'' @ key)"
  unfolding list_branch_def endswith_key_tests by (simp add: endswith_def suffix_to_prefix)

lemma list_branch_at_constructors:
  "key = ''constructors'' \<Longrightarrow> list_branch cv r s (p @ ''.'' @ key) pos
     = compare_constructors_of cv (list_items r) (list_items s) (p @ ''.'' @ key)"
  unfolding list_branch_def endswith_key_tests by (simp add: endswith_def suffix_to_prefix)

lemma list_branch_at_sorted:
  "key = ''extends'' \<or> key = ''implements'' \<Longrightarrow> list_branch cv r s (p @ ''.'' @ key) pos
     = compare_sorted (list_items r) (list_items s) (p @ ''.'' @ key)"
  unfolding list_branch_def endswith_key_tests by (auto simp: endswith_def suffix_to_prefix)

lemma list_of_type: "list_of P v \<Longrightarrow> is_list v \<and> \<not> is_dict v \<and> type_of v = TList"
  by (auto simp: list_of_def is_list_def is_dict_def)

lemma string_list_type: "string_list v \<Longrightarrow> is_list v \<and> \<not> is_dict v \<and> type_of v = TList"
  by (auto simp: string_list_def is_list_def is_dict_def)

lemma compare_values_list_branch:
  assumes "type_of v = TList" and "type_of v' = TList"
  shows "\<exists>pos. compare_values v v' q = list_branch compare_values v v' q pos"
  using assms by (subst compare_values_unfold) (auto simp: is_dict_def is_list_def)

lemma class_attribute_total:
  assumes "class_attribute (key, v)" and "class_attribute (key, v')"
  shows "\<exists>ds. compare_values v v' (p @ ''.'' @ key) = Inr ds"
proof -
  consider (methods) "key = ''methods''" | (fields) "key = ''fields''"
    | (ctors) "key = ''constructors''" | (sorted) "key = ''extends'' \<or> key = ''implements''"
    | (other) "key \<noteq> ''methods''" "key \<noteq> ''fields''" "key \<noteq> ''constructors''"
        "key \<noteq> ''extends''" "key \<noteq> ''implements''"
    by blast
  then show ?thesis
  proof cases
    case methods
    with assms have l: "list_of method_ok v" "list_of method_ok v'"
      by (simp_all add: class_attribute_def)
    from l list_of_type [of method_ok v] list_of_type [of method_ok v']
    obtain pos where "compare_values v v' (p @ ''.'' @ key)
        = list_branch compare_values v v' (p @ ''.'' @ key) pos"
      using compare_values_list_branch [of v v' "p @ ''.'' @ key"] by blast
    then have "compare_values v v' (p @ ''.'' @ key)
        = compare_methods_of compare_values (list_items v) (list_items v') (p @ ''.'' @ key)"
      by (simp only: list_branch_at_methods [OF methods])
    with l methods_total show ?thesis by (simp add: list_of_def)
  next
    case fields
    with assms have l: "list_of field_ok v" "list_of field_ok v'"
      by (simp_all add: class_attribute_def)
    from l list_of_type [of field_ok v] list_of_type [of field_ok v']
    obtain pos where "compare_values v v' (p @ ''.'' @ key)
        = list_branch compare_values v v' (p @ ''.'' @ key) pos"
      using compare_values_list_branch [of v v' "p @ ''.'' @ key"] by blast
    then have "compare_values v v' (p @ ''.'' @ key)
        = compare_fields_of compare_values (list_items v) (list_items v') (p @ ''.'' @ key)"
      by (simp only: list_branch_at_fields [OF fields])
    with l fields_total show ?thesis by (simp add: list_of_def)
  next
    case ctors
    with assms have l: "list_of ctor_ok v" "list_of ctor_ok v'"
      by (simp_all add: class_attribute_def)
    from l list_of_type [of ctor_ok v] list_of_type [of ctor_ok v']
    obtain pos where "compare_values v v' (p @ ''.'' @ key)
        = list_branch compare_values v v' (p @ ''.'' @ key) pos"
      using compare_values_list_branch [of v v' "p @ ''.'' @ key"] by blast
    then have "compare_values v v' (p @ ''.'' @ key)
        = compare_constructors_of compare_values (list_items v) (list_items v') (p @ ''.'' @ key)"
      by (simp only: list_branch_at_constructors [OF ctors])
    with l constructors_total show ?thesis by (simp add: list_of_def)
  next
    case sorted
    with assms have l: "string_list v" "string_list v'"
      by (auto simp: class_attribute_def)
    from l string_list_type [of v] string_list_type [of v']
    obtain pos where "compare_values v v' (p @ ''.'' @ key)
        = list_branch compare_values v v' (p @ ''.'' @ key) pos"
      using compare_values_list_branch [of v v' "p @ ''.'' @ key"] by blast
    then have "compare_values v v' (p @ ''.'' @ key)
        = compare_sorted (list_items v) (list_items v') (p @ ''.'' @ key)"
      by (simp only: list_branch_at_sorted [OF sorted])
    with l sorted_total show ?thesis by simp
  next
    case other
    with assms have "neutral_key key" "plain v" "plain v'"
      by (simp_all add: class_attribute_def)
    with neutral_key_path [of key p] show ?thesis by (intro plain_total) auto
  qed
qed

text \<open>
  C3, as the code has it. For two class descriptions of the shape of section 6 whose
  further attributes, at any depth, have keys that select no special strategy, the
  differ returns a discrepancy sequence: it does not raise.
\<close>

theorem class_comparison_returns:
  assumes "class_structure ref_val" and "class_structure stu_val"
  shows "\<exists>ds. compare_values ref_val stu_val path = Inr ds"
proof -
  from assms have d: "is_dict ref_val" "is_dict stu_val" by (simp_all add: class_structure_def)
  have "\<exists>ds. dict_branch compare_values ref_val stu_val path = Inr ds"
  proof (rule dict_branch_total)
    fix item stu_item
    assume item: "item \<in> set (dict_items ref_val)"
      and look: "map_of (dict_items stu_val) (fst item) = Some stu_item"
    from item assms(1) have "class_attribute (fst item, snd item)"
      by (simp add: class_structure_def list_all_iff)
    moreover from look assms(2) have "class_attribute (fst item, stu_item)"
      by (auto simp: class_structure_def list_all_iff dest: map_of_SomeD)
    ultimately show "\<exists>d. compare_values (snd item) stu_item (path @ ''.'' @ fst item) = Inr d"
      by (rule class_attribute_total)
  qed
  with d show ?thesis by (simp add: compare_values_unfold [of ref_val stu_val] is_dict_def)
qed


theorem class_comparison_returns_witness:
  "class_structure foo_reference \<and> class_structure foo_candidate
   \<and> compare_values foo_reference foo_candidate ''Class Foo''
     = Inr [''Class Foo.fields.x.type - Value mismatch: expected int, got long'',
            ''Class Foo.methods - Missing method: bar with params ['' @ [CHR 0x27] @ ''int''
              @ [CHR 0x27] @ '']'']"
proof -
  have r: "class_structure foo_reference" by code_simp
  have s: "class_structure foo_candidate" by code_simp
  have "compare_values foo_reference foo_candidate ''Class Foo''
     = Inr [''Class Foo.fields.x.type - Value mismatch: expected int, got long'',
            ''Class Foo.methods - Missing method: bar with params ['' @ [CHR 0x27] @ ''int''
              @ [CHR 0x27] @ '']'']"
    by code_simp
  with class_comparison_returns [OF r s, of "''Class Foo''"] r s show ?thesis by blast
qed

text \<open>
  C3 as stated, for arbitrary further attributes, fails: a field with a further
  attribute \<^verbatim>\<open>methods\<close> that lists accessor names is compared at a path ending in
  \<^verbatim>\<open>.methods\<close>, so \<^verbatim>\<open>compare_methods\<close> calls \<^verbatim>\<open>get\<close> on a string and raises
  \<^verbatim>\<open>AttributeError\<close>.
\<close>

theorem extra_attribute_raises_counterexample:
  "class_shape foo_accessors
   \<and> compare_values foo_accessors foo_accessors ''Class Foo'' = Inl AttributeError"
  by code_simp

section \<open>Comparing a value with itself\<close>






















end
